theory Spec2Isabelle
  imports Main
begin


section \<open>Data model (src/src/db/schema)\<close>

text \<open>
  Identifiers are the textual ids of the schema. Timestamps are instants, counted in
  milliseconds. The \<open>updatedAt\<close> columns, the \<open>metadata\<close> column of contacts and
  messages and the users and organizations tables are never read by the functions
  embedded below and are left out; agent ids are taken to be ids of existing users.
\<close>

type_synonym ident = string
type_synonym timestamp = nat

datatype conversation_status = PENDING | ASSIGNED | COMPLETED

datatype message_direction = INBOUND | OUTBOUND

datatype message_status = MSG_PENDING | SENT | DELIVERED | READ | FAILED

datatype channel_provider = WHATSAPP | MESSENGER

datatype conversation_event_type =
    CREATED | ACCEPTED | RELEASED | REASSIGNED | EV_COMPLETED | REOPENED
  | AGENT_DISCONNECTED | MESSAGE_RECEIVED | MESSAGE_SENT | MESSAGE_DELIVERED
  | MESSAGE_READ | MESSAGE_FAILED

record channel_config =
  phoneNumberId :: "string option"
  pageId :: "string option"
  appSecret :: "string option"

record channel =
  ch_id :: ident
  ch_organizationId :: ident
  ch_provider :: channel_provider
  ch_config :: channel_config
  ch_webhookSecret :: "string option"

record contact =
  ct_id :: ident
  ct_organizationId :: ident
  ct_providerId :: string
  ct_provider :: channel_provider
  ct_displayName :: "string option"
  ct_firstSeenAt :: timestamp
  ct_lastSeenAt :: timestamp

record conversation =
  c_id :: ident
  c_organizationId :: ident
  c_channelId :: ident
  c_contactId :: ident
  c_status :: conversation_status
  c_assignedAgentId :: "ident option"
  c_lastMessageAt :: "timestamp option"
  c_firstResponseAt :: "timestamp option"
  c_createdAt :: timestamp

record message =
  m_id :: ident
  m_conversationId :: ident
  m_direction :: message_direction
  m_agentId :: "ident option"
  m_body :: "string option"
  m_mediaUrl :: "string option"
  m_mediaType :: "string option"
  m_providerMessageId :: "string option"
  m_status :: message_status
  m_errorCode :: "string option"
  m_errorMessage :: "string option"
  m_createdAt :: timestamp

text \<open>
  The JSON metadata of an audit event: absent, \<open>{messageId}\<close> (MessagesService.create)
  or \<open>{messageId, errorCode, errorMessage}\<close> (MessagesService.updateStatus).
\<close>

datatype event_metadata =
    NoMetadata
  | MessageMeta ident
  | StatusMeta ident "string option" "string option"

record conversation_event =
  e_conversationId :: ident
  e_eventType :: conversation_event_type
  e_actorId :: "ident option"
  e_metadata :: event_metadata

text \<open>
  The persistence store: one list of rows per table, in insertion order. The audit trail
  is append-only, so the position of an event in \<open>conversationEvents\<close> is the order in
  which it was recorded. \<open>gen_random_uuid()\<close> is the database's own random source: the
  store carries the sequence of ids it will hand out (\<open>uuid_seq\<close>) and how many of them
  are used (\<open>uuid_used\<close>).
\<close>

record db =
  channels :: "channel list"
  contacts :: "contact list"
  conversations :: "conversation list"
  messages :: "message list"
  conversationEvents :: "conversation_event list"
  uuid_seq :: "nat \<Rightarrow> ident"
  uuid_used :: nat

text \<open>
  The coordination store (Valkey): a key holds a value and the instant at which it
  expires; \<open>None\<close> as expiry is a key without TTL. A key is absent to every command
  from its expiry instant on.
\<close>

type_synonym valkey = "string \<rightharpoonup> (string \<times> timestamp option)"

record world =
  w_db :: db
  w_valkey :: valkey

text \<open>The exceptions of the embedded code, each with its message.\<close>

datatype error =
    NotFoundException string
  | ConflictException string
  | ForbiddenException string
  | BadRequestException string
  | UnauthorizedException string
  | UniqueViolation string
  | ForeignKeyViolation string
  | RangeError string
  | TypeError string

section \<open>Persistence primitives\<close>

definition gen_random_uuid :: "db \<Rightarrow> ident \<times> db" where
  "gen_random_uuid d = (uuid_seq d (uuid_used d), d\<lparr>uuid_used := Suc (uuid_used d)\<rparr>)"

text \<open>\<open>select().from(t).where(p).limit(1)\<close>, destructured as \<open>[row]\<close>.\<close>

definition select_first :: "('a \<Rightarrow> bool) \<Rightarrow> 'a list \<Rightarrow> 'a option" where
  "select_first p rows = (case filter p rows of [] \<Rightarrow> None | r # _ \<Rightarrow> Some r)"

text \<open>\<open>update(t).set(f).where(p)\<close>: every row that satisfies \<open>p\<close> is rewritten.\<close>

definition update_where :: "('a \<Rightarrow> bool) \<Rightarrow> ('a \<Rightarrow> 'a) \<Rightarrow> 'a list \<Rightarrow> 'a list" where
  "update_where p f rows = map (\<lambda>r. if p r then f r else r) rows"

section \<open>ConversationEventsService (src/src/conversations/conversation-events.service.ts)\<close>

text \<open>
  \<open>create\<close> inserts one audit row. Its foreign key to the conversation holds at every
  call site below (the conversation was just read, inserted, or is the parent of a
  message row), so the insert is modelled as total.
\<close>

definition events_create ::
  "ident \<Rightarrow> conversation_event_type \<Rightarrow> ident option \<Rightarrow> event_metadata \<Rightarrow> db \<Rightarrow> db" where
  "events_create conversationId eventType actorId metadata d =
     d\<lparr>conversationEvents := conversationEvents d @
        [\<lparr>e_conversationId = conversationId, e_eventType = eventType,
          e_actorId = actorId, e_metadata = metadata\<rparr>]\<rparr>"

section \<open>ValkeyService lock helpers (src/unnamed/part_021)\<close>

definition valkey_get :: "timestamp \<Rightarrow> string \<Rightarrow> valkey \<Rightarrow> string option" where
  "valkey_get now key kv =
     (case kv key of
        None \<Rightarrow> None
      | Some (v, None) \<Rightarrow> Some v
      | Some (v, Some expiry) \<Rightarrow> if now < expiry then Some v else None)"

text \<open>\<open>SET key value PX ttlMs NX\<close>, answered \<open>OK\<close> exactly when the key was absent.\<close>

definition acquireLock :: "timestamp \<Rightarrow> string \<Rightarrow> nat \<Rightarrow> string \<Rightarrow> valkey \<Rightarrow> bool \<times> valkey" where
  "acquireLock now key ttlMs val kv =
     (case valkey_get now key kv of
        None \<Rightarrow> (True, kv(key \<mapsto> (val, Some (now + ttlMs))))
      | Some _ \<Rightarrow> (False, kv))"

text \<open>\<open>DEL key\<close>: the caller passes no owner and the stored value is not read.\<close>

definition releaseLock :: "string \<Rightarrow> valkey \<Rightarrow> valkey" where
  "releaseLock key kv = kv(key := None)"

section \<open>ConversationsService (src/src/conversations/conversations.module.ts)\<close>

definition findById :: "ident \<Rightarrow> db \<Rightarrow> conversation option" where
  "findById cid d = select_first (\<lambda>c. c_id c = cid) (conversations d)"

text \<open>
  \<open>findByIdWithRelations\<close> reads the same row through the relational query API; the
  joined contact, channel and agent rows are not modelled.
\<close>

definition findByIdWithRelations :: "ident \<Rightarrow> db \<Rightarrow> conversation option" where
  "findByIdWithRelations cid d = select_first (\<lambda>c. c_id c = cid) (conversations d)"

definition findByIdOrFail :: "ident \<Rightarrow> db \<Rightarrow> error + conversation" where
  "findByIdOrFail cid d =
     (case findById cid d of
        None \<Rightarrow> Inl (NotFoundException ''Conversation not found'')
      | Some c \<Rightarrow> Inr c)"

definition update_conversation :: "ident \<Rightarrow> (conversation \<Rightarrow> conversation) \<Rightarrow> db \<Rightarrow> db" where
  "update_conversation cid f d =
     d\<lparr>conversations := update_where (\<lambda>c. c_id c = cid) f (conversations d)\<rparr>"

definition lock_key :: "ident \<Rightarrow> string" where
  "lock_key conversationId = ''lock:conversation:'' @ conversationId"

definition lockTTL :: nat where
  "lockTTL = 5000"

text \<open>The \<open>try\<close> block of \<open>accept\<close>: its outcome and the store it leaves.\<close>

definition accept_try :: "ident \<Rightarrow> ident \<Rightarrow> db \<Rightarrow> (error + conversation) \<times> db" where
  "accept_try conversationId agentId d =
     (case findByIdOrFail conversationId d of
        Inl e \<Rightarrow> (Inl e, d)
      | Inr conversation \<Rightarrow>
          if c_status conversation \<noteq> PENDING
          then (Inl (ConflictException ''Conversation is not available for assignment''), d)
          else
            let d1 = update_conversation conversationId
                       (\<lambda>c. c\<lparr>c_status := ASSIGNED, c_assignedAgentId := Some agentId\<rparr>) d;
                d2 = events_create conversationId ACCEPTED (Some agentId) NoMetadata d1
            in (case findByIdWithRelations conversationId d2 of
                  None \<Rightarrow> (Inl (NotFoundException (''Conversation '' @ conversationId @ '' not found'')), d2)
                | Some result \<Rightarrow> (Inr result, d2)))"

text \<open>
  \<open>accept\<close> run without interference: \<open>now\<close> is the coordination store's clock when the
  lock is requested. The \<open>finally\<close> block releases the lock on every path that
  acquired it.
\<close>

definition accept :: "timestamp \<Rightarrow> ident \<Rightarrow> ident \<Rightarrow> world \<Rightarrow> (error + conversation) \<times> world" where
  "accept now conversationId agentId w =
     (let lockKey = lock_key conversationId;
          (acquired, kv1) = acquireLock now lockKey lockTTL agentId (w_valkey w)
      in if \<not> acquired
         then (Inl (ConflictException ''Conversation is being processed by another agent''), w)
         else
           let (r, d1) = accept_try conversationId agentId (w_db w)
           in (r, \<lparr>w_db = d1, w_valkey = releaseLock lockKey kv1\<rparr>))"

definition complete :: "ident \<Rightarrow> ident \<Rightarrow> db \<Rightarrow> (error + conversation) \<times> db" where
  "complete conversationId agentId d =
     (case findByIdOrFail conversationId d of
        Inl e \<Rightarrow> (Inl e, d)
      | Inr conversation \<Rightarrow>
          if c_status conversation \<noteq> ASSIGNED
          then (Inl (ConflictException ''Conversation must be assigned to be completed''), d)
          else if c_assignedAgentId conversation \<noteq> Some agentId
          then (Inl (ForbiddenException ''You are not assigned to this conversation''), d)
          else
            let d1 = update_conversation conversationId (\<lambda>c. c\<lparr>c_status := COMPLETED\<rparr>) d;
                d2 = events_create conversationId EV_COMPLETED (Some agentId) NoMetadata d1
            in (case findByIdWithRelations conversationId d2 of
                  None \<Rightarrow> (Inl (NotFoundException (''Conversation '' @ conversationId @ '' not found'')), d2)
                | Some result \<Rightarrow> (Inr result, d2)))"

definition reopen :: "ident \<Rightarrow> db \<Rightarrow> (error + conversation) \<times> db" where
  "reopen conversationId d =
     (case findByIdOrFail conversationId d of
        Inl e \<Rightarrow> (Inl e, d)
      | Inr conversation \<Rightarrow>
          if c_status conversation \<noteq> COMPLETED then (Inr conversation, d)
          else
            let d1 = update_conversation conversationId
                       (\<lambda>c. c\<lparr>c_status := PENDING, c_assignedAgentId := None\<rparr>) d
            in (case findById conversationId d1 of
                  None \<Rightarrow> (Inl (NotFoundException ''Failed to reopen conversation''), d1)
                | Some updated \<Rightarrow>
                    (Inr updated, events_create conversationId REOPENED None NoMetadata d1)))"

text \<open>\<open>now\<close> is what \<open>new Date()\<close> reads on the calling instance.\<close>

definition updateLastMessageAt :: "timestamp \<Rightarrow> ident \<Rightarrow> db \<Rightarrow> db" where
  "updateLastMessageAt now conversationId d =
     update_conversation conversationId (\<lambda>c. c\<lparr>c_lastMessageAt := Some now\<rparr>) d"

definition setFirstResponseAt :: "timestamp \<Rightarrow> ident \<Rightarrow> db \<Rightarrow> (error + unit) \<times> db" where
  "setFirstResponseAt now conversationId d =
     (case findByIdOrFail conversationId d of
        Inl e \<Rightarrow> (Inl e, d)
      | Inr conversation \<Rightarrow>
          if c_firstResponseAt conversation = None
          then (Inr (), update_conversation conversationId
                          (\<lambda>c. c\<lparr>c_firstResponseAt := Some now\<rparr>) d)
          else (Inr (), d))"



text \<open>
  \<open>orderBy(desc(createdAt))\<close>: the rows by descending key; rows with equal keys come in
  an order the database is free to choose, here the reverse of their insertion order.
\<close>

definition order_by_desc :: "('a \<Rightarrow> timestamp) \<Rightarrow> 'a list \<Rightarrow> 'a list" where
  "order_by_desc key rows = rev (sort_key key rows)"

text \<open>The truthiness test of JavaScript on an optional string.\<close>

definition truthy :: "string option \<Rightarrow> bool" where
  "truthy s = (case s of None \<Rightarrow> False | Some v \<Rightarrow> v \<noteq> [])"

definition findOrCreate :: "timestamp \<Rightarrow> ident \<Rightarrow> ident \<Rightarrow> ident \<Rightarrow> db \<Rightarrow> conversation \<times> db" where
  "findOrCreate now organizationId channelId contactId d =
     (case order_by_desc c_createdAt
             (filter (\<lambda>c. c_organizationId c = organizationId \<and> c_channelId c = channelId \<and>
                          c_contactId c = contactId \<and>
                          (c_status c = PENDING \<or> c_status c = ASSIGNED))
                (conversations d)) of
        existing # _ \<Rightarrow> (existing, d)
      | [] \<Rightarrow>
          let (new_id, d1) = gen_random_uuid d;
              conversation =
                \<lparr>c_id = new_id, c_organizationId = organizationId, c_channelId = channelId,
                 c_contactId = contactId, c_status = PENDING, c_assignedAgentId = None,
                 c_lastMessageAt = None, c_firstResponseAt = None, c_createdAt = now\<rparr>;
              d2 = d1\<lparr>conversations := conversations d1 @ [conversation]\<rparr>
          in (conversation, events_create new_id CREATED None NoMetadata d2))"

section \<open>ContactsService (src/src/contacts/contacts.service.ts)\<close>

definition findByProviderId :: "ident \<Rightarrow> channel_provider \<Rightarrow> string \<Rightarrow> db \<Rightarrow> contact option" where
  "findByProviderId organizationId provider providerId d =
     select_first (\<lambda>c. ct_organizationId c = organizationId \<and> ct_provider c = provider \<and>
                       ct_providerId c = providerId) (contacts d)"

text \<open>\<open>upsert\<close> as the webhook handlers call it: without the optional \<open>metadata\<close>.\<close>

definition upsert ::
  "timestamp \<Rightarrow> ident \<Rightarrow> channel_provider \<Rightarrow> string \<Rightarrow> string option \<Rightarrow> db \<Rightarrow> contact \<times> db" where
  "upsert now organizationId provider providerId displayName d =
     (case findByProviderId organizationId provider providerId d of
        Some existing \<Rightarrow>
          let updates = (\<lambda>c. c\<lparr>ct_lastSeenAt := now,
                             ct_displayName :=
                               (if truthy displayName \<and> \<not> truthy (ct_displayName existing)
                                then displayName else ct_displayName c)\<rparr>)
          in (updates existing,
              d\<lparr>contacts := update_where (\<lambda>c. ct_id c = ct_id existing) updates (contacts d)\<rparr>)
      | None \<Rightarrow>
          let (new_id, d1) = gen_random_uuid d;
              contact =
                \<lparr>ct_id = new_id, ct_organizationId = organizationId, ct_providerId = providerId,
                 ct_provider = provider, ct_displayName = displayName,
                 ct_firstSeenAt = now, ct_lastSeenAt = now\<rparr>
          in (contact, d1\<lparr>contacts := contacts d1 @ [contact]\<rparr>))"

section \<open>MessagesService (src/unnamed/part_009)\<close>

record createMessageDto =
  dto_body :: "string option"
  dto_mediaUrl :: "string option"
  dto_mediaType :: "string option"

text \<open>
  \<open>insert(messages).values(newMessage).returning()\<close> under the constraints of the schema
  (src/src/db/schema/messages.ts): \<open>provider_message_id\<close> is unique among the rows
  that have one, \<open>conversation_id\<close> references a conversation. A rejected insert
  leaves the store as it was. The generated id is taken not to be in use.
\<close>

definition messages_insert ::
  "timestamp \<Rightarrow> ident \<Rightarrow> message_direction \<Rightarrow> ident option \<Rightarrow> createMessageDto \<Rightarrow>
   string option \<Rightarrow> message_status \<Rightarrow> db \<Rightarrow> error + message \<times> db" where
  "messages_insert now conversationId direction agentId dto providerMessageId status d =
     (if providerMessageId \<noteq> None \<and>
         list_ex (\<lambda>m. m_providerMessageId m = providerMessageId) (messages d)
      then Inl (UniqueViolation ''messages_provider_message_id_unique'')
      else if findById conversationId d = None
      then Inl (ForeignKeyViolation ''messages_conversation_id_conversations_id_fk'')
      else
        let (new_id, d1) = gen_random_uuid d;
            message =
              \<lparr>m_id = new_id, m_conversationId = conversationId, m_direction = direction,
               m_agentId = agentId, m_body = dto_body dto, m_mediaUrl = dto_mediaUrl dto,
               m_mediaType = dto_mediaType dto, m_providerMessageId = providerMessageId,
               m_status = status, m_errorCode = None, m_errorMessage = None,
               m_createdAt = now\<rparr>
        in Inr (message, d1\<lparr>messages := messages d1 @ [message]\<rparr>))"

text \<open>
  \<open>create\<close>: \<open>now\<close> stands for the clock readings of the call (the row's \<open>createdAt\<close>
  default and the \<open>new Date()\<close> of the conversation updates).
\<close>

definition create ::
  "timestamp \<Rightarrow> ident \<Rightarrow> message_direction \<Rightarrow> createMessageDto \<Rightarrow> ident option \<Rightarrow>
   string option \<Rightarrow> db \<Rightarrow> (error + message) \<times> db" where
  "create now conversationId direction dto agentId providerMessageId d =
     (case messages_insert now conversationId direction agentId dto providerMessageId
             (if direction = INBOUND then DELIVERED else MSG_PENDING) d of
        Inl e \<Rightarrow> (Inl e, d)
      | Inr (message, d1) \<Rightarrow>
          let d2 = updateLastMessageAt now conversationId d1;
              eventType = (if direction = INBOUND then MESSAGE_RECEIVED else MESSAGE_SENT);
              d3 = events_create conversationId eventType agentId (MessageMeta (m_id message)) d2;
              (r4, d4) = (if direction = OUTBOUND
                          then setFirstResponseAt now conversationId d3
                          else (Inr (), d3))
          in (case r4 of
                Inl e \<Rightarrow> (Inl e, d4)
              | Inr _ \<Rightarrow>
                  if direction = INBOUND
                  then (case reopen conversationId d4 of
                          (Inl e, d5) \<Rightarrow> (Inl e, d5)
                        | (Inr _, d5) \<Rightarrow> (Inr message, d5))
                  else (Inr message, d4)))"

definition messages_findById :: "ident \<Rightarrow> db \<Rightarrow> message option" where
  "messages_findById mid d = select_first (\<lambda>m. m_id m = mid) (messages d)"

definition messages_findByIdOrFail :: "ident \<Rightarrow> db \<Rightarrow> error + message" where
  "messages_findByIdOrFail mid d =
     (case messages_findById mid d of
        None \<Rightarrow> Inl (NotFoundException ''Message not found'')
      | Some m \<Rightarrow> Inr m)"

definition findByProviderMessageId :: "string \<Rightarrow> db \<Rightarrow> message option" where
  "findByProviderMessageId providerMessageId d =
     select_first (\<lambda>m. m_providerMessageId m = Some providerMessageId) (messages d)"

record message_page =
  data :: "message list"
  nextCursor :: "ident option"

text \<open>
  \<open>findByConversation\<close>: \<open>limit\<close> is a natural number. When \<open>hasMore\<close> holds and the
  trimmed page is empty (\<open>limit = 0\<close>), \<open>data[data.length - 1]\<close> is \<open>undefined\<close> and
  reading its \<open>id\<close> throws.
\<close>

definition findByConversation ::
  "ident \<Rightarrow> ident option \<Rightarrow> nat \<Rightarrow> db \<Rightarrow> error + message_page" where
  "findByConversation conversationId cursor limit d =
     (let query = take (limit + 1)
                    (order_by_desc m_createdAt
                       (filter (\<lambda>m. m_conversationId m = conversationId) (messages d)));
          result =
            (if truthy cursor
             then (case cursor of
                     None \<Rightarrow> query
                   | Some c \<Rightarrow>
                       (case messages_findById c d of
                          None \<Rightarrow> query
                        | Some cursorMessage \<Rightarrow>
                            take (limit + 1)
                              (order_by_desc m_createdAt
                                 (filter (\<lambda>m. m_conversationId m = conversationId \<and>
                                              m_createdAt m < m_createdAt cursorMessage)
                                    (messages d)))))
             else query);
          hasMore = (length result > limit);
          page = (if hasMore then take limit result else result)
      in if hasMore
         then (case rev page of
                 [] \<Rightarrow> Inl (TypeError ''Cannot read properties of undefined (reading 'id')'')
               | lastRow # _ \<Rightarrow> Inr \<lparr>data = page, nextCursor = Some (m_id lastRow)\<rparr>)
         else Inr \<lparr>data = page, nextCursor = None\<rparr>)"

text \<open>
  \<open>updateStatus\<close>: the \<open>set\<close> of the update skips a column whose value is \<open>undefined\<close>, so
  an absent \<open>errorCode\<close> or \<open>errorMessage\<close> leaves the stored one. The stored status
  is not read. The row returned is the first updated row, which is the row found.
\<close>

definition updateStatus ::
  "ident \<Rightarrow> message_status \<Rightarrow> string option \<Rightarrow> string option \<Rightarrow> db \<Rightarrow> (error + message) \<times> db" where
  "updateStatus mid status errorCode errorMessage d =
     (case messages_findByIdOrFail mid d of
        Inl e \<Rightarrow> (Inl e, d)
      | Inr message \<Rightarrow>
          let change = (\<lambda>m. m\<lparr>m_status := status,
                          m_errorCode := (case errorCode of None \<Rightarrow> m_errorCode m | Some c \<Rightarrow> Some c),
                          m_errorMessage :=
                            (case errorMessage of None \<Rightarrow> m_errorMessage m | Some t \<Rightarrow> Some t)\<rparr>);
              d1 = d\<lparr>messages := update_where (\<lambda>m. m_id m = mid) change (messages d)\<rparr>;
              eventType =
                (if status = DELIVERED then Some MESSAGE_DELIVERED
                 else if status = READ then Some MESSAGE_READ
                 else if status = FAILED then Some MESSAGE_FAILED
                 else None)
          in (Inr (change message),
              (case eventType of
                 None \<Rightarrow> d1
               | Some t \<Rightarrow>
                   events_create (m_conversationId message) t None
                     (StatusMeta mid errorCode errorMessage) d1)))"

definition markDelivered :: "string \<Rightarrow> db \<Rightarrow> (error + unit) \<times> db" where
  "markDelivered providerMessageId d =
     (case findByProviderMessageId providerMessageId d of
        None \<Rightarrow> (Inr (), d)
      | Some message \<Rightarrow>
          (case updateStatus (m_id message) DELIVERED None None d of
             (Inl e, d1) \<Rightarrow> (Inl e, d1)
           | (Inr _, d1) \<Rightarrow> (Inr (), d1)))"

definition markRead :: "string \<Rightarrow> db \<Rightarrow> (error + unit) \<times> db" where
  "markRead providerMessageId d =
     (case findByProviderMessageId providerMessageId d of
        None \<Rightarrow> (Inr (), d)
      | Some message \<Rightarrow>
          (case updateStatus (m_id message) READ None None d of
             (Inl e, d1) \<Rightarrow> (Inl e, d1)
           | (Inr _, d1) \<Rightarrow> (Inr (), d1)))"

definition markFailed :: "string \<Rightarrow> string \<Rightarrow> string \<Rightarrow> db \<Rightarrow> (error + unit) \<times> db" where
  "markFailed providerMessageId errorCode errorMessage d =
     (case findByProviderMessageId providerMessageId d of
        None \<Rightarrow> (Inr (), d)
      | Some message \<Rightarrow>
          (case updateStatus (m_id message) FAILED (Some errorCode) (Some errorMessage) d of
             (Inl e, d1) \<Rightarrow> (Inl e, d1)
           | (Inr _, d1) \<Rightarrow> (Inr (), d1)))"

section \<open>Webhook payloads (src/src/webhooks/dto/webhook.dto.ts)\<close>

text \<open>The fields of the payloads that the handlers read.\<close>

record whatsAppMedia =
  wm_id :: string
  wm_caption :: "string option"
  wm_filename :: "string option"

record whatsAppMessage =
  wa_id :: string
  wa_from :: string
  wa_timestamp :: string
  wa_type :: string
  wa_text :: "string option"
  wa_image :: "whatsAppMedia option"
  wa_audio :: "whatsAppMedia option"
  wa_video :: "whatsAppMedia option"
  wa_document :: "whatsAppMedia option"
  wa_location :: "string option option"

record whatsAppContact =
  wc_profile_name :: string
  wc_wa_id :: string

record whatsAppStatus =
  ws_id :: string
  ws_status :: string

record whatsAppChangeValue =
  wv_phone_number_id :: string
  wv_contacts :: "whatsAppContact list option"
  wv_messages :: "whatsAppMessage list option"
  wv_statuses :: "whatsAppStatus list option"

type_synonym whatsAppWebhookPayload = "whatsAppChangeValue list list"

record messengerAttachment =
  ma_type :: string
  ma_url :: "string option"

record messengerMessage =
  mm_mid :: string
  mm_text :: "string option"
  mm_attachments :: "messengerAttachment list option"

record messengerMessaging =
  mg_sender_id :: string
  mg_message :: "messengerMessage option"
  mg_delivery :: "string list option"
  mg_read :: "nat option"

record messengerEntry =
  me_id :: string
  me_messaging :: "messengerMessaging list"

type_synonym messengerWebhookPayload = "messengerEntry list"

section \<open>WebhooksService (src/unnamed/part_010)\<close>

text \<open>
  \<open>Buffer.from(s)\<close> encodes a string as UTF-8: a character below 128 is one byte, any
  other character of a header (Latin-1) is two. \<open>crypto.timingSafeEqual\<close> throws when
  its arguments differ in byte length and compares them otherwise.
\<close>

definition utf8 :: "char \<Rightarrow> nat list" where
  "utf8 c = (let n = of_char c in if n < 128 then [n] else [192 + n div 64, 128 + n mod 64])"

definition Buffer_from :: "string \<Rightarrow> nat list" where
  "Buffer_from s = concat (map utf8 s)"

definition timingSafeEqual :: "nat list \<Rightarrow> nat list \<Rightarrow> error + bool" where
  "timingSafeEqual a b =
     (if length a \<noteq> length b
      then Inl (RangeError ''Input buffers must have the same byte length'')
      else Inr (a = b))"

definition startsWith :: "string \<Rightarrow> string \<Rightarrow> bool" where
  "startsWith s prefix = (take (length prefix) s = prefix)"

text \<open>
  \<open>hmac key data\<close> stands for
  \<open>crypto.createHmac("sha256", key).update(data).digest("hex")\<close>.
\<close>

definition validateWhatsAppSignature ::
  "(string \<Rightarrow> string \<Rightarrow> string) \<Rightarrow> string \<Rightarrow> string \<Rightarrow> string \<Rightarrow> error + bool" where
  "validateWhatsAppSignature hmac payload signature secret =
     (if \<not> startsWith signature ''sha256='' then Inr False
      else
        let expectedHash = hmac secret payload;
            providedHash = drop 7 signature
        in timingSafeEqual (Buffer_from expectedHash) (Buffer_from providedHash))"

definition validateMessengerSignature ::
  "(string \<Rightarrow> string \<Rightarrow> string) \<Rightarrow> string \<Rightarrow> string \<Rightarrow> string \<Rightarrow> error + bool" where
  "validateMessengerSignature hmac payload signature secret =
     (if \<not> startsWith signature ''sha256='' then Inr False
      else
        let expectedHash = hmac secret payload;
            providedHash = drop 7 signature
        in timingSafeEqual (Buffer_from expectedHash) (Buffer_from providedHash))"

text \<open>A \<open>for\<close> loop whose body awaits a handler: the first exception ends the loop.\<close>

fun for_each :: "('a \<Rightarrow> db \<Rightarrow> (error + unit) \<times> db) \<Rightarrow> 'a list \<Rightarrow> db \<Rightarrow> (error + unit) \<times> db" where
  "for_each f [] d = (Inr (), d)"
| "for_each f (x # xs) d =
     (case f x d of
        (Inl e, d1) \<Rightarrow> (Inl e, d1)
      | (Inr _, d1) \<Rightarrow> for_each f xs d1)"

definition findWhatsAppChannel :: "string \<Rightarrow> db \<Rightarrow> channel option" where
  "findWhatsAppChannel pnid d =
     select_first (\<lambda>ch. phoneNumberId (ch_config ch) = Some pnid)
       (filter (\<lambda>ch. ch_provider ch = WHATSAPP) (channels d))"

definition findMessengerChannel :: "string \<Rightarrow> db \<Rightarrow> channel option" where
  "findMessengerChannel pid d =
     select_first (\<lambda>ch. pageId (ch_config ch) = Some pid)
       (filter (\<lambda>ch. ch_provider ch = MESSENGER) (channels d))"

text \<open>The \<open>switch\<close> on the message type: body, media reference and media type.\<close>

definition whatsApp_content :: "whatsAppMessage \<Rightarrow> createMessageDto" where
  "whatsApp_content message =
     (let t = wa_type message in
      if t = ''text'' then
        \<lparr>dto_body = Some (case wa_text message of None \<Rightarrow> [] | Some b \<Rightarrow> b),
         dto_mediaUrl = None, dto_mediaType = None\<rparr>
      else if t = ''image'' then
        \<lparr>dto_body = Some (case Option.bind (wa_image message) wm_caption of
                            None \<Rightarrow> ''[Image]'' | Some c \<Rightarrow> c),
         dto_mediaUrl = map_option wm_id (wa_image message), dto_mediaType = Some ''image''\<rparr>
      else if t = ''audio'' then
        \<lparr>dto_body = Some ''[Audio]'',
         dto_mediaUrl = map_option wm_id (wa_audio message), dto_mediaType = Some ''audio''\<rparr>
      else if t = ''video'' then
        \<lparr>dto_body = Some (case Option.bind (wa_video message) wm_caption of
                            None \<Rightarrow> ''[Video]'' | Some c \<Rightarrow> c),
         dto_mediaUrl = map_option wm_id (wa_video message), dto_mediaType = Some ''video''\<rparr>
      else if t = ''document'' then
        \<lparr>dto_body = Some (case Option.bind (wa_document message) wm_filename of
                            None \<Rightarrow> ''[Document]'' | Some c \<Rightarrow> c),
         dto_mediaUrl = map_option wm_id (wa_document message),
         dto_mediaType = Some ''document''\<rparr>
      else if t = ''location'' then
        \<lparr>dto_body = Some (case Option.bind (wa_location message) id of
                            None \<Rightarrow> ''[Location]'' | Some c \<Rightarrow> c),
         dto_mediaUrl = None, dto_mediaType = Some ''location''\<rparr>
      else
        \<lparr>dto_body = Some (''['' @ t @ '']''), dto_mediaUrl = None, dto_mediaType = None\<rparr>)"

definition handleWhatsAppMessage ::
  "timestamp \<Rightarrow> channel \<Rightarrow> whatsAppMessage \<Rightarrow> string \<Rightarrow> db \<Rightarrow> (error + unit) \<times> db" where
  "handleWhatsAppMessage now channel message displayName d =
     (let (contact, d1) = upsert now (ch_organizationId channel) WHATSAPP (wa_from message)
                            (Some displayName) d;
          (conversation, d2) = findOrCreate now (ch_organizationId channel) (ch_id channel)
                                 (ct_id contact) d1;
          (r3, d3) = (if c_status conversation = COMPLETED
                      then (case reopen (c_id conversation) d2 of
                              (Inl e, d') \<Rightarrow> (Inl e, d')
                            | (Inr _, d') \<Rightarrow> (Inr (), d'))
                      else (Inr (), d2))
      in case r3 of
           Inl e \<Rightarrow> (Inl e, d3)
         | Inr _ \<Rightarrow>
             (case create now (c_id conversation) INBOUND (whatsApp_content message) None
                     (Some (wa_id message)) d3 of
                (Inl e, d4) \<Rightarrow> (Inl e, d4)
              | (Inr _, d4) \<Rightarrow> (Inr (), updateLastMessageAt now (c_id conversation) d4)))"

text \<open>
  \<open>handleWhatsAppStatus\<close>: for \<open>sent\<close> and \<open>failed\<close> the provider's message id is
  handed to \<open>updateStatus\<close>, which looks it up among the row ids.
\<close>

definition handleWhatsAppStatus :: "whatsAppStatus \<Rightarrow> db \<Rightarrow> (error + unit) \<times> db" where
  "handleWhatsAppStatus status d =
     (let s = ws_status status in
      if s = ''sent'' then
        (case updateStatus (ws_id status) SENT None None d of
           (Inl e, d1) \<Rightarrow> (Inl e, d1) | (Inr _, d1) \<Rightarrow> (Inr (), d1))
      else if s = ''delivered'' then markDelivered (ws_id status) d
      else if s = ''read'' then markRead (ws_id status) d
      else if s = ''failed'' then
        (case updateStatus (ws_id status) FAILED None None d of
           (Inl e, d1) \<Rightarrow> (Inl e, d1) | (Inr _, d1) \<Rightarrow> (Inr (), d1))
      else (Inr (), d))"

definition processWhatsAppChange :: "timestamp \<Rightarrow> whatsAppChangeValue \<Rightarrow> db \<Rightarrow> (error + unit) \<times> db" where
  "processWhatsAppChange now v d =
     (case findWhatsAppChannel (wv_phone_number_id v) d of
        None \<Rightarrow> (Inr (), d)
      | Some matchingChannel \<Rightarrow>
          (case (case (wv_messages v, wv_contacts v) of
                   (Some msgs, Some cts) \<Rightarrow>
                     for_each
                       (\<lambda>message.
                          handleWhatsAppMessage now matchingChannel message
                            (case select_first (\<lambda>c. wc_wa_id c = wa_from message) cts of
                               None \<Rightarrow> wa_from message
                             | Some c \<Rightarrow> wc_profile_name c))
                       msgs d
                 | _ \<Rightarrow> (Inr (), d)) of
             (Inl e, d1) \<Rightarrow> (Inl e, d1)
           | (Inr _, d1) \<Rightarrow>
               (case wv_statuses v of
                  None \<Rightarrow> (Inr (), d1)
                | Some sts \<Rightarrow> for_each handleWhatsAppStatus sts d1)))"

definition processWhatsAppWebhook :: "timestamp \<Rightarrow> whatsAppWebhookPayload \<Rightarrow> db \<Rightarrow> (error + unit) \<times> db" where
  "processWhatsAppWebhook now payload d =
     for_each (\<lambda>entry. for_each (processWhatsAppChange now) entry) payload d"

definition messenger_content :: "messengerMessage \<Rightarrow> createMessageDto" where
  "messenger_content message =
     (if truthy (mm_text message) then
        \<lparr>dto_body = mm_text message, dto_mediaUrl = None, dto_mediaType = None\<rparr>
      else
        (case mm_attachments message of
           Some (attachment # _) \<Rightarrow>
             (let t = ma_type attachment in
              if t = ''image'' then
                \<lparr>dto_body = Some ''[Image]'', dto_mediaUrl = ma_url attachment,
                 dto_mediaType = Some ''image''\<rparr>
              else if t = ''audio'' then
                \<lparr>dto_body = Some ''[Audio]'', dto_mediaUrl = ma_url attachment,
                 dto_mediaType = Some ''audio''\<rparr>
              else if t = ''video'' then
                \<lparr>dto_body = Some ''[Video]'', dto_mediaUrl = ma_url attachment,
                 dto_mediaType = Some ''video''\<rparr>
              else if t = ''file'' then
                \<lparr>dto_body = Some ''[File]'', dto_mediaUrl = ma_url attachment,
                 dto_mediaType = Some ''document''\<rparr>
              else if t = ''location'' then
                \<lparr>dto_body = Some ''[Location]'', dto_mediaUrl = None,
                 dto_mediaType = Some ''location''\<rparr>
              else
                \<lparr>dto_body = Some (''['' @ t @ '']''), dto_mediaUrl = None,
                 dto_mediaType = None\<rparr>)
         | _ \<Rightarrow> \<lparr>dto_body = Some [], dto_mediaUrl = None, dto_mediaType = None\<rparr>))"

definition handleMessengerMessage ::
  "timestamp \<Rightarrow> channel \<Rightarrow> messengerMessaging \<Rightarrow> db \<Rightarrow> (error + unit) \<times> db" where
  "handleMessengerMessage now channel messaging d =
     (case mg_message messaging of
        None \<Rightarrow> (Inr (), d)
      | Some message \<Rightarrow>
          let senderId = mg_sender_id messaging;
              (contact, d1) = upsert now (ch_organizationId channel) MESSENGER senderId
                                (Some (''User '' @ drop (length senderId - 6) senderId)) d;
              (conversation, d2) = findOrCreate now (ch_organizationId channel) (ch_id channel)
                                     (ct_id contact) d1;
              (r3, d3) = (if c_status conversation = COMPLETED
                          then (case reopen (c_id conversation) d2 of
                                  (Inl e, d') \<Rightarrow> (Inl e, d')
                                | (Inr _, d') \<Rightarrow> (Inr (), d'))
                          else (Inr (), d2))
          in case r3 of
               Inl e \<Rightarrow> (Inl e, d3)
             | Inr _ \<Rightarrow>
                 (case create now (c_id conversation) INBOUND (messenger_content message) None
                         (Some (mm_mid message)) d3 of
                    (Inl e, d4) \<Rightarrow> (Inl e, d4)
                  | (Inr _, d4) \<Rightarrow> (Inr (), updateLastMessageAt now (c_id conversation) d4)))"

definition handleMessengerDelivery :: "messengerMessaging \<Rightarrow> db \<Rightarrow> (error + unit) \<times> db" where
  "handleMessengerDelivery messaging d =
     (case mg_delivery messaging of
        None \<Rightarrow> (Inr (), d)
      | Some mids \<Rightarrow> for_each markDelivered mids d)"

definition processMessengerEntry :: "timestamp \<Rightarrow> messengerEntry \<Rightarrow> db \<Rightarrow> (error + unit) \<times> db" where
  "processMessengerEntry now entry d =
     (case findMessengerChannel (me_id entry) d of
        None \<Rightarrow> (Inr (), d)
      | Some channel \<Rightarrow>
          for_each
            (\<lambda>messaging.
               if mg_message messaging \<noteq> None then handleMessengerMessage now channel messaging
               else if mg_delivery messaging \<noteq> None then handleMessengerDelivery messaging
               else (\<lambda>d'. (Inr (), d')))
            (me_messaging entry) d)"

definition processMessengerWebhook :: "timestamp \<Rightarrow> messengerWebhookPayload \<Rightarrow> db \<Rightarrow> (error + unit) \<times> db" where
  "processMessengerWebhook now payload d = for_each (processMessengerEntry now) payload d"

section \<open>WebhooksController (src/unnamed/part_011)\<close>

text \<open>
  A POST as the controller sees it: the \<open>x-hub-signature-256\<close> header if the request
  carries one, the raw body if the framework kept it, and the parsed body.
  \<open>stringify\<close> stands for \<open>JSON.stringify\<close>. The handler answers \<open>{status: "ok"}\<close> or
  throws; the store it leaves is the second component.
\<close>

record 'p webhook_request =
  req_signature :: "string option"
  req_rawBody :: "string option"
  req_body :: 'p

definition handleWhatsApp ::
  "(string \<Rightarrow> string \<Rightarrow> string) \<Rightarrow> (whatsAppWebhookPayload \<Rightarrow> string) \<Rightarrow> timestamp \<Rightarrow> ident \<Rightarrow>
   whatsAppWebhookPayload webhook_request \<Rightarrow> db \<Rightarrow> (error + string) \<times> db" where
  "handleWhatsApp hmac stringify now channelId req d =
     (case select_first (\<lambda>ch. ch_id ch = channelId) (channels d) of
        None \<Rightarrow> (Inl (BadRequestException ''Channel not found''), d)
      | Some channel \<Rightarrow>
          let config = ch_config channel;
              checked =
                (case (appSecret config, req_signature req) of
                   (Some secret, Some signature) \<Rightarrow>
                     if secret \<noteq> [] \<and> signature \<noteq> []
                     then
                       (let rawBody = (case req_rawBody req of
                                         Some raw \<Rightarrow> raw
                                       | None \<Rightarrow> stringify (req_body req))
                        in case validateWhatsAppSignature hmac rawBody signature secret of
                             Inl e \<Rightarrow> Inl e
                           | Inr isValid \<Rightarrow>
                               if \<not> isValid
                               then Inl (UnauthorizedException ''Invalid signature'')
                               else Inr ())
                     else Inr ()
                 | _ \<Rightarrow> Inr ())
          in case checked of
               Inl e \<Rightarrow> (Inl e, d)
             | Inr _ \<Rightarrow> (Inr ''ok'', snd (processWhatsAppWebhook now (req_body req) d)))"

definition handleMessenger ::
  "(string \<Rightarrow> string \<Rightarrow> string) \<Rightarrow> (messengerWebhookPayload \<Rightarrow> string) \<Rightarrow> timestamp \<Rightarrow> ident \<Rightarrow>
   messengerWebhookPayload webhook_request \<Rightarrow> db \<Rightarrow> (error + string) \<times> db" where
  "handleMessenger hmac stringify now channelId req d =
     (case select_first (\<lambda>ch. ch_id ch = channelId) (channels d) of
        None \<Rightarrow> (Inl (BadRequestException ''Channel not found''), d)
      | Some channel \<Rightarrow>
          let config = ch_config channel;
              checked =
                (case (appSecret config, req_signature req) of
                   (Some secret, Some signature) \<Rightarrow>
                     if secret \<noteq> [] \<and> signature \<noteq> []
                     then
                       (let rawBody = (case req_rawBody req of
                                         Some raw \<Rightarrow> raw
                                       | None \<Rightarrow> stringify (req_body req))
                        in case validateMessengerSignature hmac rawBody signature secret of
                             Inl e \<Rightarrow> Inl e
                           | Inr isValid \<Rightarrow>
                               if \<not> isValid
                               then Inl (UnauthorizedException ''Invalid signature'')
                               else Inr ())
                     else Inr ()
                 | _ \<Rightarrow> Inr ())
          in case checked of
               Inl e \<Rightarrow> (Inl e, d)
             | Inr _ \<Rightarrow> (Inr ''ok'', snd (processMessengerWebhook now (req_body req) d)))"

section \<open>Concurrent calls of accept\<close>

text \<open>
  Each \<open>await\<close> of \<open>accept\<close> is one command against the coordination store or the
  persistence store; between two of them other calls, on this or another backend
  instance, may run. A call in flight is its arguments and the point it has reached:
  \<^item> \<open>Start\<close>: before \<open>acquireLock\<close>;
  \<^item> \<open>Locked\<close>: lock acquired, before \<open>findByIdOrFail\<close> and the status check;
  \<^item> \<open>Checked\<close>: status read as PENDING, before the \<open>update\<close>;
  \<^item> \<open>Updated\<close>: row updated, before the ACCEPTED event is recorded;
  \<^item> \<open>Logged\<close>: event recorded, before \<open>findByIdWithRelations\<close>;
  \<^item> \<open>Releasing r\<close>: the \<open>try\<close> block has ended with outcome \<open>r\<close>, the \<open>finally\<close> block
    has not yet released the lock;
  \<^item> \<open>Finished r\<close>: the call has returned \<open>r\<close> (\<open>Inl\<close>: thrown).
\<close>

datatype accept_pc =
    Start | Locked | Checked | Updated | Logged
  | Releasing "error + conversation"
  | Finished "error + conversation"

record accept_call =
  call_conversationId :: ident
  call_agentId :: ident
  call_pc :: accept_pc

text \<open>One command of a call; \<open>now\<close> is the coordination store's clock at that command.\<close>

definition accept_step :: "timestamp \<Rightarrow> accept_call \<Rightarrow> world \<Rightarrow> accept_call \<times> world" where
  "accept_step now p w =
     (let conversationId = call_conversationId p; agentId = call_agentId p;
          lockKey = lock_key conversationId
      in case call_pc p of
           Start \<Rightarrow>
             (let (acquired, kv1) = acquireLock now lockKey lockTTL agentId (w_valkey w)
              in if \<not> acquired
                 then (p\<lparr>call_pc := Finished (Inl (ConflictException
                          ''Conversation is being processed by another agent''))\<rparr>, w)
                 else (p\<lparr>call_pc := Locked\<rparr>, w\<lparr>w_valkey := kv1\<rparr>))
         | Locked \<Rightarrow>
             (case findByIdOrFail conversationId (w_db w) of
                Inl e \<Rightarrow> (p\<lparr>call_pc := Releasing (Inl e)\<rparr>, w)
              | Inr conversation \<Rightarrow>
                  if c_status conversation \<noteq> PENDING
                  then (p\<lparr>call_pc := Releasing (Inl (ConflictException
                           ''Conversation is not available for assignment''))\<rparr>, w)
                  else (p\<lparr>call_pc := Checked\<rparr>, w))
         | Checked \<Rightarrow>
             (p\<lparr>call_pc := Updated\<rparr>,
              w\<lparr>w_db := update_conversation conversationId
                   (\<lambda>c. c\<lparr>c_status := ASSIGNED, c_assignedAgentId := Some agentId\<rparr>) (w_db w)\<rparr>)
         | Updated \<Rightarrow>
             (p\<lparr>call_pc := Logged\<rparr>,
              w\<lparr>w_db := events_create conversationId ACCEPTED (Some agentId) NoMetadata (w_db w)\<rparr>)
         | Logged \<Rightarrow>
             (case findByIdWithRelations conversationId (w_db w) of
                None \<Rightarrow> (p\<lparr>call_pc := Releasing (Inl (NotFoundException
                             (''Conversation '' @ conversationId @ '' not found'')))\<rparr>, w)
              | Some result \<Rightarrow> (p\<lparr>call_pc := Releasing (Inr result)\<rparr>, w))
         | Releasing r \<Rightarrow>
             (p\<lparr>call_pc := Finished r\<rparr>, w\<lparr>w_valkey := releaseLock lockKey (w_valkey w)\<rparr>)
         | Finished r \<Rightarrow> (p, w))"

text \<open>
  A schedule is the order in which the commands of the calls reach the stores: each
  entry names the clock reading and the call that moves.
\<close>

type_synonym system = "accept_call list \<times> world"

definition sys_step :: "timestamp \<times> nat \<Rightarrow> system \<Rightarrow> system" where
  "sys_step ti s =
     (let now = fst ti; i = snd ti; calls = fst s
      in if i < length calls
         then (let (p', w') = accept_step now (calls ! i) (snd s) in (calls[i := p'], w'))
         else s)"

definition run :: "(timestamp \<times> nat) list \<Rightarrow> system \<Rightarrow> system" where
  "run sched s = fold sys_step sched s"

definition start_calls :: "ident \<Rightarrow> ident list \<Rightarrow> accept_call list" where
  "start_calls conversationId agents =
     map (\<lambda>a. \<lparr>call_conversationId = conversationId, call_agentId = a, call_pc = Start\<rparr>) agents"

definition outcome :: "accept_call \<Rightarrow> (error + conversation) option" where
  "outcome p = (case call_pc p of Finished r \<Rightarrow> Some r | _ \<Rightarrow> None)"

section \<open>Auxiliary notions for the analysis of concurrent accept calls\<close>

text \<open>
  \<open>in_cs\<close>: the call holds the lock (it is between its successful \<open>acquireLock\<close> and
  its \<open>releaseLock\<close>). \<open>won\<close>: the call has written the assignment. \<open>BP\<close> and \<open>NA\<close> are
  the two conflicts \<open>accept\<close> throws. \<open>pc_ok\<close>: what a call's outcome can be.
  \<open>idx P calls\<close>: the positions of the calls whose point satisfies \<open>P\<close>.
\<close>

fun in_cs :: "accept_pc \<Rightarrow> bool" where
  "in_cs Start = False"
| "in_cs (Finished r) = False"
| "in_cs _ = True"

fun won :: "accept_pc \<Rightarrow> bool" where
  "won Updated = True"
| "won Logged = True"
| "won (Releasing (Inr r)) = True"
| "won (Finished (Inr r)) = True"
| "won _ = False"

definition BP :: error where "BP = ConflictException ''Conversation is being processed by another agent''"
definition NA :: error where "NA = ConflictException ''Conversation is not available for assignment''"

fun pc_ok :: "ident \<Rightarrow> accept_pc \<Rightarrow> bool" where
  "pc_ok a (Releasing (Inr r)) = (c_status r = ASSIGNED \<and> c_assignedAgentId r = Some a)"
| "pc_ok a (Finished (Inr r)) = (c_status r = ASSIGNED \<and> c_assignedAgentId r = Some a)"
| "pc_ok a (Releasing (Inl e)) = (e = NA)"
| "pc_ok a (Finished (Inl e)) = (e = BP \<or> e = NA)"
| "pc_ok a _ = True"

definition idx :: "(accept_pc \<Rightarrow> bool) \<Rightarrow> accept_call list \<Rightarrow> nat set" where
  "idx P calls = {i. i < length calls \<and> P (call_pc (calls ! i))}"

definition accept_inv :: "ident \<Rightarrow> timestamp \<Rightarrow> system \<Rightarrow> bool" where
  "accept_inv cid t0 s =
     (let calls = fst s; w = snd s in
      (\<forall>i<length calls. call_conversationId (calls ! i) = cid \<and>
           pc_ok (call_agentId (calls ! i)) (call_pc (calls ! i))) \<and>
      (\<exists>c. findById cid (w_db w) = Some c \<and>
         (idx won calls = {} \<and> c_status c = PENDING \<or>
          (\<exists>i. idx won calls = {i} \<and> c_status c = ASSIGNED \<and>
                c_assignedAgentId c = Some (call_agentId (calls ! i))))) \<and>
      (case w_valkey w (lock_key cid) of
         None \<Rightarrow> idx in_cs calls = {}
       | Some ve \<Rightarrow>
           (\<exists>t. snd ve = Some t \<and> t0 + lockTTL \<le> t) \<and>
           (\<exists>i. idx in_cs calls = {i} \<and> call_agentId (calls ! i) = fst ve)) \<and>
      (idx (\<lambda>pc. pc = Checked) calls = {} \<or> idx won calls = {}) \<and>
      (idx (\<lambda>pc. pc = Releasing (Inl NA) \<or> pc = Finished (Inl NA)) calls = {} \<or> idx won calls \<noteq> {}) \<and>
      (idx (\<lambda>pc. pc = Finished (Inl BP)) calls = {} \<or> idx in_cs calls \<noteq> {} \<or>
         idx (\<lambda>pc. \<exists>r. pc = Finished r \<and> r \<noteq> Inl BP) calls \<noteq> {}))"


text \<open>
  \<open>rank\<close> counts the commands a call has issued (six take it from \<open>Start\<close> to
  \<open>Finished\<close>). \<open>in_window t0 sched\<close>: every command of the schedule reaches the
  stores at or after \<open>t0\<close> and less than the lock's TTL after it.
\<close>

fun rank :: "accept_pc \<Rightarrow> nat" where
  "rank Start = 0"
| "rank Locked = 1"
| "rank Checked = 2"
| "rank Updated = 3"
| "rank Logged = 4"
| "rank (Releasing r) = 5"
| "rank (Finished r) = 6"

definition in_window :: "timestamp \<Rightarrow> (timestamp \<times> nat) list \<Rightarrow> bool" where
  "in_window t0 sched = list_all (\<lambda>ti. t0 \<le> fst ti \<and> fst ti < t0 + lockTTL) sched"

text \<open>
  \<open>first_at sched i\<close>: the clock reading at the first command of call \<open>i\<close> in the
  schedule, which is its \<open>acquireLock\<close>; a lock acquired there expires \<open>lockTTL\<close>
  later. \<open>timely sched\<close>: every call issues each of its commands before that instant.
  \<open>live now sched calls i\<close>: at clock reading \<open>now\<close> call \<open>i\<close> is between its acquire and
  its unlock and the lock it acquired has not expired. \<open>lock_inv\<close>: a call has issued
  a command exactly if it has left \<open>Start\<close>, the lock key of a live call holds the
  entry that call stored, and no two live calls are on the same conversation.
\<close>

definition first_at :: "(timestamp \<times> nat) list \<Rightarrow> nat \<Rightarrow> timestamp option" where
  "first_at sched i = map_option fst (find (\<lambda>ti. snd ti = i) sched)"

definition timely :: "(timestamp \<times> nat) list \<Rightarrow> bool" where
  "timely sched =
     list_all (\<lambda>ti. case first_at sched (snd ti) of
                      None \<Rightarrow> False
                    | Some t0 \<Rightarrow> fst ti < t0 + lockTTL) sched"

definition live :: "timestamp \<Rightarrow> (timestamp \<times> nat) list \<Rightarrow> accept_call list \<Rightarrow> nat \<Rightarrow> bool" where
  "live now sched calls i =
     (i < length calls \<and> in_cs (call_pc (calls ! i)) \<and>
      (case first_at sched i of None \<Rightarrow> False | Some t0 \<Rightarrow> now < t0 + lockTTL))"

definition lock_inv :: "timestamp \<Rightarrow> (timestamp \<times> nat) list \<Rightarrow> system \<Rightarrow> bool" where
  "lock_inv now sched s =
     (let calls = fst s; kv = w_valkey (snd s) in
      (\<forall>i<length calls. (call_pc (calls ! i) = Start) = (first_at sched i = None)) \<and>
      (\<forall>i. live now sched calls i \<longrightarrow>
         kv (lock_key (call_conversationId (calls ! i))) =
           Some (call_agentId (calls ! i), Some (the (first_at sched i) + lockTTL)) \<and>
         (\<forall>j. live now sched calls j \<and>
               call_conversationId (calls ! j) = call_conversationId (calls ! i) \<longrightarrow> j = i)))"


section \<open>Auxiliary notions for repeated webhook deliveries\<close>

text \<open>
  The same inbound message handed to \<open>handleWhatsAppMessage\<close> once per clock reading of
  the list, each delivery on the store the previous one left (its exception, if any,
  is caught and logged by the caller). \<open>stored pid d\<close>: the message rows with provider
  message id \<open>pid\<close>. \<open>received d\<close>: the MESSAGE_RECEIVED events of the audit trail.
\<close>

fun redeliver :: "timestamp list \<Rightarrow> channel \<Rightarrow> whatsAppMessage \<Rightarrow> string \<Rightarrow> db \<Rightarrow> db" where
  "redeliver [] channel message displayName d = d"
| "redeliver (now # later) channel message displayName d =
     redeliver later channel message displayName
       (snd (handleWhatsAppMessage now channel message displayName d))"

definition stored :: "string \<Rightarrow> db \<Rightarrow> message list" where
  "stored pid d = filter (\<lambda>m. m_providerMessageId m = Some pid) (messages d)"

definition received :: "db \<Rightarrow> conversation_event list" where
  "received d = filter (\<lambda>e. e_eventType e = MESSAGE_RECEIVED) (conversationEvents d)"

section \<open>Auxiliary notions for paging through a conversation\<close>

text \<open>
  A client that lists the messages of a conversation: it calls \<open>findByConversation\<close>,
  then calls it again with the \<open>nextCursor\<close> it was given, until that is null. \<open>fuel\<close>
  bounds the number of calls; \<open>None\<close> is a client still paging when the fuel is spent.
  \<open>thread cid d\<close>: the messages of the conversation, newest first.
\<close>

fun fetch_pages ::
  "nat \<Rightarrow> ident \<Rightarrow> ident option \<Rightarrow> nat \<Rightarrow> db \<Rightarrow> (error + message_page list) option" where
  "fetch_pages 0 cid cursor limit d = None"
| "fetch_pages (Suc fuel) cid cursor limit d =
     (case findByConversation cid cursor limit d of
        Inl e \<Rightarrow> Some (Inl e)
      | Inr page \<Rightarrow>
          (case nextCursor page of
             None \<Rightarrow> Some (Inr [page])
           | Some c \<Rightarrow>
               (case fetch_pages fuel cid (Some c) limit d of
                  None \<Rightarrow> None
                | Some (Inl e) \<Rightarrow> Some (Inl e)
                | Some (Inr pages) \<Rightarrow> Some (Inr (page # pages)))))"

definition thread :: "ident \<Rightarrow> db \<Rightarrow> message list" where
  "thread cid d =
     order_by_desc m_createdAt (filter (\<lambda>m. m_conversationId m = cid) (messages d))"

text \<open>
  \<open>pages_cover limit T pages\<close>: the pages, one after the other, are exactly the list
  \<open>T\<close>; every page but the last is full and names a cursor; the last names none.
\<close>

definition pages_cover :: "nat \<Rightarrow> message list \<Rightarrow> message_page list \<Rightarrow> bool" where
  "pages_cover limit T pages =
     (pages \<noteq> [] \<and> concat (map data pages) = T \<and>
      list_all (\<lambda>p. nextCursor p \<noteq> None \<and> length (data p) = limit) (butlast pages) \<and>
      nextCursor (last pages) = None \<and> length (data (last pages)) \<le> limit)"

section \<open>Example states\<close>

definition ex_conv :: "conversation_status \<Rightarrow> ident option \<Rightarrow> conversation" where
  "ex_conv st agent =
     \<lparr>c_id = ''c1'', c_organizationId = ''org1'', c_channelId = ''ch1'', c_contactId = ''ct1'',
      c_status = st, c_assignedAgentId = agent, c_lastMessageAt = None,
      c_firstResponseAt = None, c_createdAt = 0\<rparr>"

definition ex_db :: "conversation list \<Rightarrow> db" where
  "ex_db convs =
     \<lparr>channels = [], contacts = [], conversations = convs, messages = [],
      conversationEvents = [], uuid_seq = (\<lambda>n. replicate (Suc n) CHR ''u''), uuid_used = 0\<rparr>"

definition ex_world :: "conversation_status \<Rightarrow> ident option \<Rightarrow> world" where
  "ex_world st agent = \<lparr>w_db = ex_db [ex_conv st agent], w_valkey = Map.empty\<rparr>"


text \<open>
  Three agents, all commands within 18 ms: the first call runs through, the second asks
  for the lock while the first holds it, the third after the first has released it.
\<close>

definition ex_sched_within :: "(timestamp \<times> nat) list" where
  "ex_sched_within =
     [(0,0),(1,0),(2,1),(3,0),(4,0),(5,0),(6,0),(7,2),(8,2),(9,2),
      (10,1),(11,1),(12,1),(13,1),(14,1),(15,2),(16,2),(17,2)]"

text \<open>
  Two agents: the first call acquires the lock at 0 and reads the row at 1, then stalls
  for five seconds before its update; the second call arrives at 5001, after the
  instant 5000 at which the first lock expires.
\<close>

definition ex_sched_expired :: "(timestamp \<times> nat) list" where
  "ex_sched_expired =
     [(0,0),(1,0),(5001,1),(5002,1),(5003,0),(5004,0),(5005,0),(5006,0),
      (5007,1),(5008,1),(5009,1),(5010,1)]"


text \<open>
  A prefix of \<open>ex_sched_expired\<close> that ends with the first call about to unlock, its
  own lock expired and the key held by the second call.
\<close>

definition ex_sched_stale :: "(timestamp \<times> nat) list" where
  "ex_sched_stale = [(0,0),(1,0),(5001,1),(5002,1),(5003,0),(5004,0),(5005,0)]"

text \<open>
  Two calls on a conversation that is not PENDING: the first acquires the lock, the
  second is refused it, the first reads the status and is about to unlock.
\<close>

definition ex_sched_unlock :: "(timestamp \<times> nat) list" where
  "ex_sched_unlock = [(0,0),(1,1),(2,0)]"

definition ex_message :: "ident \<Rightarrow> string option \<Rightarrow> message_status \<Rightarrow> timestamp \<Rightarrow> message" where
  "ex_message mid pid st t =
     \<lparr>m_id = mid, m_conversationId = ''c1'', m_direction = OUTBOUND, m_agentId = Some ''a1'',
      m_body = Some ''Hello'', m_mediaUrl = None, m_mediaType = None,
      m_providerMessageId = pid, m_status = st, m_errorCode = None, m_errorMessage = None,
      m_createdAt = t\<rparr>"

definition ex_db_msgs :: "conversation list \<Rightarrow> message list \<Rightarrow> db" where
  "ex_db_msgs convs msgs = (ex_db convs)\<lparr>messages := msgs\<rparr>"



text \<open>
  A WhatsApp channel and a webhook payload with one text message. \<open>ex_hmac\<close> stands in
  for HMAC-SHA256 where an example needs some digest function: it answers 64 hex
  characters, as every digest does.
\<close>

definition ex_channel :: "string option \<Rightarrow> channel" where
  "ex_channel secret =
     \<lparr>ch_id = ''ch1'', ch_organizationId = ''org1'', ch_provider = WHATSAPP,
      ch_config = \<lparr>phoneNumberId = Some ''pn1'', pageId = None, appSecret = secret\<rparr>,
      ch_webhookSecret = Some ''verify-token''\<rparr>"

definition ex_db_channel :: "string option \<Rightarrow> conversation list \<Rightarrow> db" where
  "ex_db_channel secret convs = (ex_db convs)\<lparr>channels := [ex_channel secret]\<rparr>"

definition ex_wa_message :: whatsAppMessage where
  "ex_wa_message =
     \<lparr>wa_id = ''wamid.XYZ'', wa_from = ''15559876543'', wa_timestamp = ''1700000000'',
      wa_type = ''text'', wa_text = Some ''Hello'', wa_image = None, wa_audio = None,
      wa_video = None, wa_document = None, wa_location = None\<rparr>"

definition ex_payload :: whatsAppWebhookPayload where
  "ex_payload =
     [[\<lparr>wv_phone_number_id = ''pn1'',
        wv_contacts = Some [\<lparr>wc_profile_name = ''Ann'', wc_wa_id = ''15559876543''\<rparr>],
        wv_messages = Some [ex_wa_message], wv_statuses = None\<rparr>]]"

text \<open>
  \<open>ex_delivered\<close>: the store after the payload has been processed once, at 7, on a
  store that holds the channel only. \<open>ex_completed\<close>: the same after agent a1 has
  accepted (at 8) and completed the conversation the payload created.
\<close>

definition ex_delivered :: db where
  "ex_delivered = snd (processWhatsAppWebhook 7 ex_payload (ex_db_channel (Some ''s3cret'') []))"

definition ex_completed :: db where
  "ex_completed =
     snd (complete ''uu'' ''a1''
       (w_db (snd (accept 8 ''uu'' ''a1'' \<lparr>w_db = ex_delivered, w_valkey = Map.empty\<rparr>))))"

definition ex_hmac :: "string \<Rightarrow> string \<Rightarrow> string" where
  "ex_hmac key payload = replicate 64 (CHR ''0'')"

definition ex_request :: "string option \<Rightarrow> whatsAppWebhookPayload webhook_request" where
  "ex_request signature =
     \<lparr>req_signature = signature, req_rawBody = Some ''{}'', req_body = ex_payload\<rparr>"

definition ex_messenger_request :: "string option \<Rightarrow> messengerWebhookPayload webhook_request" where
  "ex_messenger_request signature =
     \<lparr>req_signature = signature, req_rawBody = Some ''{}'', req_body = []\<rparr>"

text \<open>Two signature headers that do not match: one of the right length, one too short.\<close>

definition ex_signature_mismatch :: string where
  "ex_signature_mismatch = ''sha256='' @ replicate 64 (CHR ''1'')"

definition ex_signature_short :: string where
  "ex_signature_short = ''sha256=abc''"

section \<open>Facts about the persistence primitives\<close>

lemma select_first_update_where_key:
  assumes "\<And>r. k (f r) = k r"
  shows "select_first (\<lambda>r. k r = x) (update_where (\<lambda>r. k r = x) f rows) =
     map_option f (select_first (\<lambda>r. k r = x) rows)"
  using assms by (induction rows) (auto simp: select_first_def update_where_def)

lemma select_first_update_where_other:
  assumes "\<And>r. k (f r) = k r" "y \<noteq> x"
  shows "select_first (\<lambda>r. k r = y) (update_where (\<lambda>r. k r = x) f rows) =
         select_first (\<lambda>r. k r = y) rows"
  using assms by (induction rows) (auto simp: select_first_def update_where_def)

lemma findById_update_conversation:
  assumes "\<And>c. c_id (f c) = c_id c"
  shows "findById cid (update_conversation cid f d) = map_option f (findById cid d)"
  using assms by (simp add: findById_def update_conversation_def select_first_update_where_key)

lemma findById_events_create [simp]:
  "findById cid (events_create c t a m d) = findById cid d"
  by (simp add: findById_def events_create_def)

lemma findByIdWithRelations_eq: "findByIdWithRelations cid d = findById cid d"
  by (simp add: findByIdWithRelations_def findById_def)

section \<open>The invariant of concurrent accept calls\<close>

text \<open>
  \<open>accept_inv\<close> holds at the start and is kept by every command issued inside the
  window: the lock key is held exactly while one call is between its acquire and its
  release, and by that call's agent; the row is PENDING exactly as long as no call has
  written; a call that was refused the lock leaves another call behind that holds or
  held it.
\<close>

lemma BP_neq_NA [simp]: "BP \<noteq> NA" "NA \<noteq> BP"
  by (simp_all add: BP_def NA_def)

lemma idx_update:
  "i < length calls \<Longrightarrow>
   idx P (calls[i := p]) = (if P (call_pc p) then insert i (idx P calls) else idx P calls - {i})"
  by (auto simp: idx_def nth_list_update)

lemma idx_iff: "i \<in> idx P calls \<longleftrightarrow> i < length calls \<and> P (call_pc (calls ! i))"
  by (simp add: idx_def)

lemma accept_inv_init:
  assumes "findById cid (w_db w) = Some c" "c_status c = PENDING" "w_valkey w (lock_key cid) = None"
  shows "accept_inv cid t0 (start_calls cid agents, w)"
  using assms by (auto simp: accept_inv_def start_calls_def idx_def)

lemma accept_inv_step:
  assumes inv: "accept_inv cid t0 (calls, w)" and i: "i < length calls"
    and t: "t0 \<le> now" "now < t0 + lockTTL"
    and st: "accept_step now (calls ! i) w = (p', w')"
  shows "accept_inv cid t0 (calls[i := p'], w')"
proof -
  have cid: "call_conversationId (calls ! i) = cid" using inv i by (simp add: accept_inv_def)
  have nin: "\<And>P. \<not> P (call_pc (calls ! i)) \<Longrightarrow> i \<notin> idx P calls" by (simp add: idx_iff)
  have isin: "\<And>P. P (call_pc (calls ! i)) \<Longrightarrow> i \<in> idx P calls" using i by (simp add: idx_iff)
  show ?thesis
  proof (cases "call_pc (calls ! i)")
    case Start
    show ?thesis
    proof (cases "w_valkey w (lock_key cid)")
      case None
      then have eff: "p' = (calls ! i)\<lparr>call_pc := Locked\<rparr>"
         "w' = w\<lparr>w_valkey := (w_valkey w)(lock_key cid \<mapsto> (call_agentId (calls ! i), Some (now + lockTTL)))\<rparr>"
        using st Start cid by (auto simp: accept_step_def acquireLock_def valkey_get_def Let_def)
      show ?thesis
        using inv i t None Start nin[of in_cs] nin[of won]
        unfolding eff accept_inv_def
        by (auto simp: idx_update nth_list_update Let_def)
    next
      case (Some ve)
      then have "\<exists>t. snd ve = Some t \<and> now < t" using inv t by (auto simp: accept_inv_def)
      then have eff: "p' = (calls ! i)\<lparr>call_pc := Finished (Inl BP)\<rparr>" "w' = w"
        using st Start cid Some
        by (auto simp: accept_step_def acquireLock_def valkey_get_def Let_def BP_def split: prod.splits)
      show ?thesis
        using inv i Some Start nin[of in_cs] nin[of won]
        unfolding eff accept_inv_def
        by (auto simp: idx_update nth_list_update Let_def)
    qed
  next
    case Locked
    obtain c where c: "findById cid (w_db w) = Some c" using inv by (auto simp: accept_inv_def)
    show ?thesis
    proof (cases "c_status c = PENDING")
      case True
      then have eff: "p' = (calls ! i)\<lparr>call_pc := Checked\<rparr>" "w' = w"
        using st Locked cid c by (auto simp: accept_step_def findByIdOrFail_def Let_def)
      have W: "idx won calls = {}" using inv c True by (auto simp: accept_inv_def)
      show ?thesis
        using inv i Locked W isin[of in_cs]
        unfolding eff accept_inv_def
        by (auto simp: idx_update nth_list_update Let_def insert_absorb split: option.splits)
    next
      case False
      then have eff: "p' = (calls ! i)\<lparr>call_pc := Releasing (Inl NA)\<rparr>" "w' = w"
        using st Locked cid c by (auto simp: accept_step_def findByIdOrFail_def Let_def NA_def)
      have W: "idx won calls \<noteq> {}" using inv c False by (auto simp: accept_inv_def)
      show ?thesis
        using inv i Locked W isin[of in_cs] nin[of won]
        unfolding eff accept_inv_def
        by (auto simp: idx_update nth_list_update Let_def insert_absorb split: option.splits)
    qed
  next
    case Checked
    have eff: "p' = (calls ! i)\<lparr>call_pc := Updated\<rparr>"
      "w' = w\<lparr>w_db := update_conversation cid
                   (\<lambda>c. c\<lparr>c_status := ASSIGNED, c_assignedAgentId := Some (call_agentId (calls ! i))\<rparr>) (w_db w)\<rparr>"
      using st Checked cid by (auto simp: accept_step_def Let_def)
    have W: "idx won calls = {}" using inv isin[of "\<lambda>pc. pc = Checked"] Checked by (auto simp: accept_inv_def)
    have H: "idx in_cs calls = {i}" using inv isin[of in_cs] Checked by (auto simp: accept_inv_def split: option.splits)
    have "idx (\<lambda>pc. pc = Checked) calls \<subseteq> idx in_cs calls" by (auto simp: idx_def)
    then have C: "idx (\<lambda>pc. pc = Checked) calls - {i} = {}" using H by auto
    show ?thesis
      using inv i Checked W H C
      unfolding eff accept_inv_def
      by (auto simp: idx_update nth_list_update Let_def insert_absorb findById_update_conversation split: option.splits)
  next
    case Updated
    have eff: "p' = (calls ! i)\<lparr>call_pc := Logged\<rparr>"
      "w' = w\<lparr>w_db := events_create cid ACCEPTED (Some (call_agentId (calls ! i))) NoMetadata (w_db w)\<rparr>"
      using st Updated cid by (auto simp: accept_step_def Let_def)
    show ?thesis
      using inv i Updated isin[of in_cs] isin[of won]
      unfolding eff accept_inv_def
      by (auto simp: idx_update nth_list_update Let_def insert_absorb split: option.splits)
  next
    case Logged
    have W: "i \<in> idx won calls" using isin[of won] Logged by simp
    then obtain c where c: "findById cid (w_db w) = Some c" "c_status c = ASSIGNED"
        "c_assignedAgentId c = Some (call_agentId (calls ! i))"
      using inv by (auto simp: accept_inv_def)
    have eff: "p' = (calls ! i)\<lparr>call_pc := Releasing (Inr c)\<rparr>" "w' = w"
      using st Logged cid c by (auto simp: accept_step_def Let_def findByIdWithRelations_eq)
    show ?thesis
      using inv i Logged isin[of in_cs] isin[of won] c
      unfolding eff accept_inv_def
      by (auto simp: idx_update nth_list_update Let_def insert_absorb split: option.splits)
  next
    case (Releasing r)
    have eff: "p' = (calls ! i)\<lparr>call_pc := Finished r\<rparr>"
      "w' = w\<lparr>w_valkey := (w_valkey w)(lock_key cid := None)\<rparr>"
      using st Releasing cid by (auto simp: accept_step_def Let_def releaseLock_def)
    have H: "idx in_cs calls = {i}" using inv isin[of in_cs] Releasing by (auto simp: accept_inv_def split: option.splits)
    have ok: "pc_ok (call_agentId (calls ! i)) (Releasing r)" using inv i Releasing by (auto simp: accept_inv_def)
    then have r: "r \<noteq> Inl BP" by (cases r) (auto simp: NA_def BP_def)
    have won: "won (Finished r) = won (Releasing r)" by (cases r) auto
    have ok': "pc_ok (call_agentId (calls ! i)) (Finished r)" using ok by (cases r) auto
    show ?thesis
      using inv i Releasing H r won ok' isin[of won] nin[of won]
        isin[of "\<lambda>pc. pc = Releasing (Inl NA) \<or> pc = Finished (Inl NA)"]
      unfolding eff accept_inv_def
      by (auto simp: idx_update nth_list_update Let_def insert_absorb split: option.splits)
  next
    case (Finished r)
    then have eff: "p' = calls ! i" "w' = w"
      using st by (auto simp: accept_step_def Let_def)
    show ?thesis using inv unfolding eff by simp
  qed
qed


section \<open>Schedules of concurrent accept calls\<close>

lemma accept_step_ids:
  "call_conversationId (fst (accept_step now p w)) = call_conversationId p \<and>
   call_agentId (fst (accept_step now p w)) = call_agentId p"
  by (simp add: accept_step_def Let_def split: accept_pc.splits prod.splits sum.splits option.splits)

lemma accept_step_rank:
  "min 6 (Suc (rank (call_pc p))) \<le> rank (call_pc (fst (accept_step now p w)))"
  by (simp add: accept_step_def Let_def split: accept_pc.splits prod.splits sum.splits option.splits)

lemma length_sys_step [simp]: "length (fst (sys_step ti s)) = length (fst s)"
  by (simp add: sys_step_def Let_def split: prod.splits)

lemma length_run [simp]: "length (fst (run sched s)) = length (fst s)"
  unfolding run_def by (induction sched arbitrary: s) simp_all

lemma agents_sys_step [simp]:
  "map call_agentId (fst (sys_step ti s)) = map call_agentId (fst s)"
proof -
  have "\<And>i p'. i < length (fst s) \<Longrightarrow> call_agentId p' = call_agentId (fst s ! i) \<Longrightarrow>
      map call_agentId ((fst s)[i := p']) = map call_agentId (fst s)"
    by (simp add: map_update list_update_same_conv)
  then show ?thesis
    using accept_step_ids
    by (auto simp: sys_step_def Let_def split: prod.splits) (metis fst_conv)
qed

lemma agents_run [simp]: "map call_agentId (fst (run sched s)) = map call_agentId (fst s)"
  unfolding run_def by (induction sched arbitrary: s) simp_all

lemma rank_sys_step:
  assumes "i < length (fst s)"
  shows "(if snd ti = i then min 6 (Suc (rank (call_pc (fst s ! i)))) else rank (call_pc (fst s ! i)))
           \<le> rank (call_pc (fst (sys_step ti s) ! i))"
  using assms accept_step_rank[of "fst s ! i" "fst ti" "snd s"]
  by (auto simp: sys_step_def Let_def nth_list_update split: prod.splits)

lemma rank_run:
  assumes "i < length (fst s)"
  shows "min 6 (rank (call_pc (fst s ! i)) + count_list (map snd sched) i)
           \<le> rank (call_pc (fst (run sched s) ! i))"
  using assms
proof (induction sched arbitrary: s)
  case Nil
  then show ?case by (simp add: run_def)
next
  case (Cons ti sched)
  have "i < length (fst (sys_step ti s))" using Cons.prems by simp
  from Cons.IH[OF this] rank_sys_step[OF Cons.prems, of ti]
  show ?case by (auto simp: run_def split: if_splits)
qed

lemma rank_6: "6 \<le> rank pc \<Longrightarrow> \<exists>r. pc = Finished r"
  by (cases pc) auto

lemma accept_inv_sys_step:
  assumes "accept_inv cid t0 s" "t0 \<le> fst ti" "fst ti < t0 + lockTTL"
  shows "accept_inv cid t0 (sys_step ti s)"
proof (cases "snd ti < length (fst s)")
  case True
  obtain p' w' where st: "accept_step (fst ti) (fst s ! snd ti) (snd s) = (p', w')"
    by (cases "accept_step (fst ti) (fst s ! snd ti) (snd s)")
  have "accept_inv cid t0 (fst s, snd s)" using assms(1) by simp
  from accept_inv_step[OF this True assms(2,3) st]
  show ?thesis using True st by (simp add: sys_step_def Let_def)
next
  case False
  then show ?thesis using assms(1) by (simp add: sys_step_def Let_def)
qed

lemma accept_inv_run:
  assumes "accept_inv cid t0 s" "in_window t0 sched"
  shows "accept_inv cid t0 (run sched s)"
  using assms unfolding run_def in_window_def
  by (induction sched arbitrary: s) (simp_all add: accept_inv_sys_step)


lemma accept_invD:
  assumes "accept_inv cid t0 (calls, w)"
  shows "i < length calls \<Longrightarrow> pc_ok (call_agentId (calls ! i)) (call_pc (calls ! i))"
    and "\<exists>c. findById cid (w_db w) = Some c \<and>
         (idx won calls = {} \<and> c_status c = PENDING \<or>
          (\<exists>i. idx won calls = {i} \<and> c_status c = ASSIGNED \<and>
                c_assignedAgentId c = Some (call_agentId (calls ! i))))"
    and "idx (\<lambda>pc. pc = Releasing (Inl NA) \<or> pc = Finished (Inl NA)) calls = {} \<or> idx won calls \<noteq> {}"
    and "idx (\<lambda>pc. pc = Finished (Inl BP)) calls = {} \<or> idx in_cs calls \<noteq> {} \<or>
         idx (\<lambda>pc. \<exists>r. pc = Finished r \<and> r \<noteq> Inl BP) calls \<noteq> {}"
    and "case w_valkey w (lock_key cid) of
         None \<Rightarrow> idx in_cs calls = {}
       | Some ve \<Rightarrow>
           (\<exists>t. snd ve = Some t \<and> t0 + lockTTL \<le> t) \<and>
           (\<exists>i. idx in_cs calls = {i} \<and> call_agentId (calls ! i) = fst ve)"
proof -
  have all: "(\<forall>i<length calls. call_conversationId (calls ! i) = cid \<and>
           pc_ok (call_agentId (calls ! i)) (call_pc (calls ! i))) \<and>
      (\<exists>c. findById cid (w_db w) = Some c \<and>
         (idx won calls = {} \<and> c_status c = PENDING \<or>
          (\<exists>i. idx won calls = {i} \<and> c_status c = ASSIGNED \<and>
                c_assignedAgentId c = Some (call_agentId (calls ! i))))) \<and>
      (case w_valkey w (lock_key cid) of
         None \<Rightarrow> idx in_cs calls = {}
       | Some ve \<Rightarrow>
           (\<exists>t. snd ve = Some t \<and> t0 + lockTTL \<le> t) \<and>
           (\<exists>i. idx in_cs calls = {i} \<and> call_agentId (calls ! i) = fst ve)) \<and>
      (idx (\<lambda>pc. pc = Checked) calls = {} \<or> idx won calls = {}) \<and>
      (idx (\<lambda>pc. pc = Releasing (Inl NA) \<or> pc = Finished (Inl NA)) calls = {} \<or> idx won calls \<noteq> {}) \<and>
      (idx (\<lambda>pc. pc = Finished (Inl BP)) calls = {} \<or> idx in_cs calls \<noteq> {} \<or>
         idx (\<lambda>pc. \<exists>r. pc = Finished r \<and> r \<noteq> Inl BP) calls \<noteq> {})"
    using assms unfolding accept_inv_def Let_def fst_conv snd_conv .
  show "i < length calls \<Longrightarrow> pc_ok (call_agentId (calls ! i)) (call_pc (calls ! i))"
    using conjunct1[OF all] by simp
  show "\<exists>c. findById cid (w_db w) = Some c \<and>
         (idx won calls = {} \<and> c_status c = PENDING \<or>
          (\<exists>i. idx won calls = {i} \<and> c_status c = ASSIGNED \<and>
                c_assignedAgentId c = Some (call_agentId (calls ! i))))"
    using all by (elim conjE)
  show "idx (\<lambda>pc. pc = Releasing (Inl NA) \<or> pc = Finished (Inl NA)) calls = {} \<or> idx won calls \<noteq> {}"
    using all by (elim conjE)
  show "idx (\<lambda>pc. pc = Finished (Inl BP)) calls = {} \<or> idx in_cs calls \<noteq> {} \<or>
         idx (\<lambda>pc. \<exists>r. pc = Finished r \<and> r \<noteq> Inl BP) calls \<noteq> {}"
    using all by (elim conjE)
  show "case w_valkey w (lock_key cid) of
         None \<Rightarrow> idx in_cs calls = {}
       | Some ve \<Rightarrow>
           (\<exists>t. snd ve = Some t \<and> t0 + lockTTL \<le> t) \<and>
           (\<exists>i. idx in_cs calls = {i} \<and> call_agentId (calls ! i) = fst ve)"
    using all by (elim conjE)
qed


text \<open>
  A call that runs alone, its six commands at the same clock reading, is the function
  \<open>accept\<close> of the previous sections.
\<close>

lemma accept_steps_accept:
  "run (replicate 6 (now, 0)) (start_calls cid [agent], w) =
     ([\<lparr>call_conversationId = cid, call_agentId = agent,
        call_pc = Finished (fst (accept now cid agent w))\<rparr>], snd (accept now cid agent w))"
proof (cases "valkey_get now (lock_key cid) (w_valkey w)")
  case (Some v)
  then show ?thesis
    by (simp add: eval_nat_numeral run_def start_calls_def sys_step_def accept_step_def accept_def
        acquireLock_def Let_def)
next
  case None
  note free = this
  show ?thesis
  proof (cases "findById cid (w_db w)")
    case None
    then show ?thesis using free
      by (simp add: eval_nat_numeral run_def start_calls_def sys_step_def accept_step_def accept_def
          accept_try_def findByIdOrFail_def acquireLock_def releaseLock_def Let_def)
  next
    case (Some c)
    show ?thesis
    proof (cases "c_status c = PENDING")
      case True
      then show ?thesis using free Some
        by (simp add: eval_nat_numeral run_def start_calls_def sys_step_def accept_step_def accept_def
            accept_try_def findByIdOrFail_def acquireLock_def releaseLock_def Let_def
            findByIdWithRelations_eq findById_update_conversation)
    next
      case False
      then show ?thesis using free Some
        by (simp add: eval_nat_numeral run_def start_calls_def sys_step_def accept_step_def accept_def
            accept_try_def findByIdOrFail_def acquireLock_def releaseLock_def Let_def)
    qed
  qed
qed


section \<open>accept on one conversation (C3)\<close>

lemma conversationEvents_events_create:
  "conversationEvents (events_create c t a m d) = conversationEvents d @
     [\<lparr>e_conversationId = c, e_eventType = t, e_actorId = a, e_metadata = m\<rparr>]"
  by (simp add: events_create_def)

lemma conversationEvents_update_conversation [simp]:
  "conversationEvents (update_conversation cid f d) = conversationEvents d"
  by (simp add: update_conversation_def)

text \<open>
  C3. \<open>accept\<close> succeeds only on a conversation whose status is PENDING: a successful
  call has read the row as PENDING, returns it with status ASSIGNED and the agent as
  \<open>assignedAgentId\<close>, leaves that row in the store and appends exactly one ACCEPTED
  event by the agent. If the row's status is not PENDING the call fails with a
  ConflictException and the persistence store is unchanged. A PENDING row whose lock
  is free is accepted.
\<close>

theorem accept_pending_only:
  "(accept now cid agent w = (Inr r, w') \<longrightarrow>
      (\<exists>c. findById cid (w_db w) = Some c \<and> c_status c = PENDING \<and>
           r = c\<lparr>c_status := ASSIGNED, c_assignedAgentId := Some agent\<rparr> \<and>
           findById cid (w_db w') = Some r \<and>
           conversationEvents (w_db w') = conversationEvents (w_db w) @
             [\<lparr>e_conversationId = cid, e_eventType = ACCEPTED,
               e_actorId = Some agent, e_metadata = NoMetadata\<rparr>]))
   \<and> (findById cid (w_db w) = Some c \<and> c_status c \<noteq> PENDING \<longrightarrow>
        (\<exists>msg. fst (accept now cid agent w) = Inl (ConflictException msg)) \<and>
        w_db (snd (accept now cid agent w)) = w_db w)
   \<and> (findById cid (w_db w) = Some c \<and> c_status c = PENDING \<and>
        valkey_get now (lock_key cid) (w_valkey w) = None \<longrightarrow>
        fst (accept now cid agent w) =
          Inr (c\<lparr>c_status := ASSIGNED, c_assignedAgentId := Some agent\<rparr>))"
  by (auto simp: accept_def accept_try_def findByIdOrFail_def findByIdWithRelations_eq
      findById_update_conversation conversationEvents_events_create Let_def acquireLock_def
      split: prod.splits sum.splits option.splits if_splits)

lemma ex_accept_pending:
  "accept 0 ''c1'' ''a1'' (ex_world PENDING None) =
     (Inr (ex_conv ASSIGNED (Some ''a1'')),
      \<lparr>w_db = (ex_db [ex_conv ASSIGNED (Some ''a1'')])\<lparr>conversationEvents :=
          [\<lparr>e_conversationId = ''c1'', e_eventType = ACCEPTED,
            e_actorId = Some ''a1'', e_metadata = NoMetadata\<rparr>]\<rparr>,
       w_valkey = Map.empty\<rparr>)"
  by (simp add: accept_def accept_try_def findByIdOrFail_def findByIdWithRelations_def
      findById_def select_first_def update_conversation_def update_where_def events_create_def
      acquireLock_def valkey_get_def releaseLock_def lock_key_def lockTTL_def
      ex_world_def ex_db_def ex_conv_def Let_def)

theorem accept_pending_only_witness:
  "accept 0 ''c1'' ''a1'' (ex_world PENDING None) = 
     (Inr (ex_conv ASSIGNED (Some ''a1'')), snd (accept 0 ''c1'' ''a1'' (ex_world PENDING None))) \<and>
   findById ''c1'' (w_db (ex_world PENDING None)) = Some (ex_conv PENDING None) \<and>
   findById ''c1'' (w_db (snd (accept 0 ''c1'' ''a1'' (ex_world PENDING None)))) =
     Some (ex_conv ASSIGNED (Some ''a1'')) \<and>
   findById ''c1'' (w_db (ex_world COMPLETED (Some ''a2''))) = Some (ex_conv COMPLETED (Some ''a2'')) \<and>
   c_status (ex_conv COMPLETED (Some ''a2'')) \<noteq> PENDING \<and>
   fst (accept 0 ''c1'' ''a1'' (ex_world COMPLETED (Some ''a2''))) =
     Inl (ConflictException ''Conversation is not available for assignment'') \<and>
   w_db (snd (accept 0 ''c1'' ''a1'' (ex_world COMPLETED (Some ''a2'')))) =
     w_db (ex_world COMPLETED (Some ''a2''))"
proof -
  have f1: "findById ''c1'' (w_db (ex_world PENDING None)) = Some (ex_conv PENDING None)"
    by (simp add: findById_def select_first_def ex_world_def ex_db_def ex_conv_def)
  have f2: "findById ''c1'' (w_db (ex_world COMPLETED (Some ''a2''))) = Some (ex_conv COMPLETED (Some ''a2''))"
    by (simp add: findById_def select_first_def ex_world_def ex_db_def ex_conv_def)
  have s2: "c_status (ex_conv COMPLETED (Some ''a2'')) \<noteq> PENDING" by (simp add: ex_conv_def)
  have e: "fst (accept 0 ''c1'' ''a1'' (ex_world COMPLETED (Some ''a2''))) =
     Inl (ConflictException ''Conversation is not available for assignment'')"
    by (simp add: accept_def accept_try_def findByIdOrFail_def findByIdWithRelations_def
      findById_def select_first_def update_conversation_def update_where_def events_create_def
      acquireLock_def valkey_get_def releaseLock_def lock_key_def lockTTL_def
      ex_world_def ex_db_def ex_conv_def Let_def)
  note t = accept_pending_only[of 0 "''c1''" "''a1''" "ex_world PENDING None"
      "ex_conv ASSIGNED (Some ''a1'')" "snd (accept 0 ''c1'' ''a1'' (ex_world PENDING None))"
      "ex_conv COMPLETED (Some ''a2'')"]
  note u = accept_pending_only[of 0 "''c1''" "''a1''" "ex_world COMPLETED (Some ''a2'')"
      "ex_conv ASSIGNED (Some ''a1'')" "snd (accept 0 ''c1'' ''a1'' (ex_world PENDING None))"
      "ex_conv COMPLETED (Some ''a2'')"]
  show ?thesis using t u f1 f2 s2 e ex_accept_pending by (auto simp: ex_conv_def)
qed


section \<open>Concurrent accept calls while the lock is in force\<close>

lemma run_Nil [simp]: "run [] s = s" by (simp add: run_def)
lemma run_Cons [simp]: "run (ti # sched) s = run sched (sys_step ti s)" by (simp add: run_def)

lemmas accept_eval =
  sys_step_def accept_step_def start_calls_def outcome_def
  findByIdOrFail_def findByIdWithRelations_def findById_def select_first_def
  update_conversation_def update_where_def events_create_def
  acquireLock_def valkey_get_def releaseLock_def lock_key_def lockTTL_def
  ex_world_def ex_db_def ex_conv_def Let_def

text \<open>
  A sufficient condition under which the lock does its work. Let a conversation be
  PENDING and its lock key absent, let any number of \<open>accept\<close> calls on it (one per
  entry of \<open>agents\<close>) run in any interleaving of their commands, all commands reaching
  the stores within a window shorter than the lock's TTL, and each call scheduled often
  enough to issue all its commands. Then every call returns, exactly one of them
  returns the conversation (as ASSIGNED to its agent), every other call throws a
  ConflictException, and the row ends ASSIGNED to the winner.
\<close>

lemma accept_exclusive_within_ttl:
  assumes c: "findById cid (w_db w) = Some c" "c_status c = PENDING"
    and free: "w_valkey w (lock_key cid) = None"
    and ne: "agents \<noteq> []"
    and win: "in_window t0 sched"
    and fin: "list_all (\<lambda>i. 6 \<le> count_list (map snd sched) i) [0..<length agents]"
  shows "\<exists>i<length agents. \<exists>r c'.
      outcome (fst (run sched (start_calls cid agents, w)) ! i) = Some (Inr r) \<and>
      c_status r = ASSIGNED \<and> c_assignedAgentId r = Some (agents ! i) \<and>
      (\<forall>j<length agents. j \<noteq> i \<longrightarrow>
         (\<exists>msg. outcome (fst (run sched (start_calls cid agents, w)) ! j) =
                  Some (Inl (ConflictException msg)))) \<and>
      findById cid (w_db (snd (run sched (start_calls cid agents, w)))) = Some c' \<and>
      c_status c' = ASSIGNED \<and> c_assignedAgentId c' = Some (agents ! i)"
proof -
  define s where "s = run sched (start_calls cid agents, w)"
  define calls where "calls = fst s"
  have len: "length calls = length agents"
    by (simp add: calls_def s_def start_calls_def)
  have ag: "map call_agentId calls = agents"
    by (simp add: calls_def s_def start_calls_def comp_def)
  have agi: "\<And>i. i < length agents \<Longrightarrow> call_agentId (calls ! i) = agents ! i"
    using ag len by (metis nth_map)
  have inv: "accept_inv cid t0 (calls, snd s)"
    using accept_inv_run[OF accept_inv_init[OF c free] win, of agents] by (simp add: calls_def s_def)
  have fin': "\<And>i. i < length agents \<Longrightarrow> \<exists>r. call_pc (calls ! i) = Finished r"
  proof -
    fix i assume i: "i < length agents"
    then have "6 \<le> count_list (map snd sched) i" using fin by (simp add: list_all_iff)
    moreover have "i < length (fst (start_calls cid agents, w))" using i by (simp add: start_calls_def)
    from rank_run[OF this, of sched]
    have "min 6 (count_list (map snd sched) i) \<le> rank (call_pc (calls ! i))"
      using i by (simp add: calls_def s_def start_calls_def)
    ultimately show "\<exists>r. call_pc (calls ! i) = Finished r" by (intro rank_6) simp
  qed
  have H: "idx in_cs calls = {}" using fin' len by (fastforce simp: idx_def)
  have ok: "\<And>i. i < length agents \<Longrightarrow> pc_ok (agents ! i) (call_pc (calls ! i))"
    using accept_invD(1)[OF inv] len agi by simp
  have W: "idx won calls \<noteq> {}"
  proof -
    have nonBP: "\<And>j r. j < length agents \<Longrightarrow> call_pc (calls ! j) = Finished r \<Longrightarrow> r \<noteq> Inl BP \<Longrightarrow> idx won calls \<noteq> {}"
    proof -
      fix j r assume j: "j < length agents" and pcj: "call_pc (calls ! j) = Finished r" and r: "r \<noteq> Inl BP"
      show "idx won calls \<noteq> {}"
      proof (cases r)
        case (Inl e)
        then have "e = NA" using ok[OF j] pcj r by auto
        then have "j \<in> idx (\<lambda>pc. pc = Releasing (Inl NA) \<or> pc = Finished (Inl NA)) calls"
          using j len pcj Inl by (simp add: idx_def)
        then show ?thesis using accept_invD(3)[OF inv] by auto
      next
        case (Inr x)
        then have "j \<in> idx won calls" using j len pcj by (simp add: idx_def)
        then show ?thesis by auto
      qed
    qed
    have 0: "0 < length agents" using ne by simp
    obtain r0 where r0: "call_pc (calls ! 0) = Finished r0" using fin'[OF 0] by auto
    show ?thesis
    proof (cases "r0 = Inl BP")
      case True
      then have "0 \<in> idx (\<lambda>pc. pc = Finished (Inl BP)) calls" using 0 len r0 by (simp add: idx_def)
      then have "idx (\<lambda>pc. \<exists>r. pc = Finished r \<and> r \<noteq> Inl BP) calls \<noteq> {}"
        using accept_invD(4)[OF inv] H by auto
      then obtain j r where "j < length agents" "call_pc (calls ! j) = Finished r" "r \<noteq> Inl BP"
        using len by (auto simp: idx_def)
      then show ?thesis by (rule nonBP)
    next
      case False
      then show ?thesis using nonBP[OF 0 r0] by simp
    qed
  qed
  then obtain i c' where i: "idx won calls = {i}" and c': "findById cid (w_db (snd s)) = Some c'"
      "c_status c' = ASSIGNED" "c_assignedAgentId c' = Some (call_agentId (calls ! i))"
    using accept_invD(2)[OF inv] by auto
  have il: "i < length agents" and wi: "won (call_pc (calls ! i))"
    using i len by (auto simp: idx_def)
  obtain ri where ri: "call_pc (calls ! i) = Finished ri" using fin'[OF il] by auto
  then obtain r where r: "ri = Inr r" using wi by (cases ri) auto
  have rok: "c_status r = ASSIGNED \<and> c_assignedAgentId r = Some (agents ! i)"
    using ok[OF il] ri r by simp
  have others: "\<forall>j<length agents. j \<noteq> i \<longrightarrow>
         (\<exists>msg. outcome (calls ! j) = Some (Inl (ConflictException msg)))"
  proof (intro allI impI)
    fix j assume j: "j < length agents" and ji: "j \<noteq> i"
    obtain rj where rj: "call_pc (calls ! j) = Finished rj" using fin'[OF j] by auto
    have "j \<notin> idx won calls" using i ji by simp
    then have "\<not> won (Finished rj)" using j len rj by (simp add: idx_def)
    then obtain e where e: "rj = Inl e" by (cases rj) auto
    then have "e = BP \<or> e = NA" using ok[OF j] rj by simp
    then show "\<exists>msg. outcome (calls ! j) = Some (Inl (ConflictException msg))"
      using rj e by (auto simp: outcome_def BP_def NA_def)
  qed
  have out_i: "outcome (calls ! i) = Some (Inr r)" using ri r by (simp add: outcome_def)
  have c'': "c_assignedAgentId c' = Some (agents ! i)" using c'(3) agi[OF il] by simp
  have "\<exists>r c'. outcome (calls ! i) = Some (Inr r) \<and>
      c_status r = ASSIGNED \<and> c_assignedAgentId r = Some (agents ! i) \<and>
      (\<forall>j<length agents. j \<noteq> i \<longrightarrow>
         (\<exists>msg. outcome (calls ! j) = Some (Inl (ConflictException msg)))) \<and>
      findById cid (w_db (snd s)) = Some c' \<and>
      c_status c' = ASSIGNED \<and> c_assignedAgentId c' = Some (agents ! i)"
    using out_i rok others c'(1,2) c'' by blast
  with il show ?thesis unfolding calls_def s_def by blast
qed


lemma ex_run_within:
  "map outcome (fst (run ex_sched_within (start_calls ''c1'' [''a1'', ''a2'', ''a3''], ex_world PENDING None))) =
     [Some (Inr (ex_conv ASSIGNED (Some ''a1''))), Some (Inl BP), Some (Inl NA)]"
  by (simp add: ex_sched_within_def accept_eval NA_def BP_def)

lemma accept_exclusive_within_ttl_example:
  "findById ''c1'' (w_db (ex_world PENDING None)) = Some (ex_conv PENDING None) \<and>
   c_status (ex_conv PENDING None) = PENDING \<and>
   w_valkey (ex_world PENDING None) (lock_key ''c1'') = None \<and>
   in_window 0 ex_sched_within \<and>
   list_all (\<lambda>i. 6 \<le> count_list (map snd ex_sched_within) i) [0..<length [''a1'', ''a2'', ''a3'']] \<and>
   (\<exists>i<length [''a1'', ''a2'', ''a3'']. \<exists>r c'.
      outcome (fst (run ex_sched_within (start_calls ''c1'' [''a1'', ''a2'', ''a3''], ex_world PENDING None)) ! i) = Some (Inr r) \<and>
      c_status r = ASSIGNED \<and> c_assignedAgentId r = Some ([''a1'', ''a2'', ''a3''] ! i) \<and>
      (\<forall>j<length [''a1'', ''a2'', ''a3'']. j \<noteq> i \<longrightarrow>
         (\<exists>msg. outcome (fst (run ex_sched_within (start_calls ''c1'' [''a1'', ''a2'', ''a3''], ex_world PENDING None)) ! j) =
                  Some (Inl (ConflictException msg)))) \<and>
      findById ''c1'' (w_db (snd (run ex_sched_within (start_calls ''c1'' [''a1'', ''a2'', ''a3''], ex_world PENDING None)))) = Some c' \<and>
      c_status c' = ASSIGNED \<and> c_assignedAgentId c' = Some ([''a1'', ''a2'', ''a3''] ! i))"
proof -
  have h1: "findById ''c1'' (w_db (ex_world PENDING None)) = Some (ex_conv PENDING None)"
    by (simp add: findById_def select_first_def ex_world_def ex_db_def ex_conv_def)
  have h2: "c_status (ex_conv PENDING None) = PENDING" by (simp add: ex_conv_def)
  have h3: "w_valkey (ex_world PENDING None) (lock_key ''c1'') = None" by (simp add: ex_world_def)
  have h4: "[''a1'', ''a2'', ''a3''] \<noteq> []" by simp
  have h5: "in_window 0 ex_sched_within" by (simp add: in_window_def ex_sched_within_def lockTTL_def)
  have h6: "list_all (\<lambda>i. 6 \<le> count_list (map snd ex_sched_within) i) [0..<length [''a1'', ''a2'', ''a3'']]"
    by (simp add: ex_sched_within_def upt_rec)
  from accept_exclusive_within_ttl[OF h1 h2 h3 h4 h5 h6] h1 h2 h3 h5 h6
  show ?thesis by blast
qed

section \<open>Two concurrent accept calls both succeed (C1)\<close>

text \<open>
  C1. Of the concurrent \<open>accept\<close> calls on a PENDING conversation exactly one is to
  succeed. \<open>accept\<close> reads the status and writes the assignment in two separate
  commands, the write carries no condition on the status, and the only guard between
  them is a lock that expires after \<open>lockTTL\<close>. In \<open>ex_sched_expired\<close> the first call
  (agent a1) stalls between its status check and its update until its lock has expired;
  the second call (agent a2) acquires the lock and also reads PENDING. Both calls return
  the conversation, each as ASSIGNED to its own agent, two ACCEPTED events are recorded,
  and the row ends ASSIGNED to a2.
\<close>

theorem accept_both_succeed_after_expiry:
  "map outcome (fst (run ex_sched_expired (start_calls ''c1'' [''a1'', ''a2''], ex_world PENDING None))) =
     [Some (Inr (ex_conv ASSIGNED (Some ''a1''))), Some (Inr (ex_conv ASSIGNED (Some ''a2'')))] \<and>
   findById ''c1'' (w_db (snd (run ex_sched_expired
      (start_calls ''c1'' [''a1'', ''a2''], ex_world PENDING None)))) =
     Some (ex_conv ASSIGNED (Some ''a2'')) \<and>
   map (\<lambda>e. (e_eventType e, e_actorId e)) (conversationEvents (w_db (snd (run ex_sched_expired
      (start_calls ''c1'' [''a1'', ''a2''], ex_world PENDING None))))) =
     [(ACCEPTED, Some ''a1''), (ACCEPTED, Some ''a2'')] \<and>
   sorted (map fst ex_sched_expired)"
  by (simp add: ex_sched_expired_def accept_eval)

section \<open>What the unlock at the end of accept deletes (C2)\<close>

text \<open>
  Schedules grow at their end; \<open>lock_inv\<close> is kept by every command that its call
  issues before the lock it acquired expires.
\<close>

lemma first_at_snoc:
  "first_at (p @ [(t, k)]) i =
     (case first_at p i of Some x \<Rightarrow> Some x | None \<Rightarrow> if i = k then Some t else None)"
  by (induction p) (auto simp: first_at_def)

lemma first_at_None_iff: "first_at p i = None \<longleftrightarrow> i \<notin> snd ` set p"
  by (force simp: first_at_def find_None_iff)

lemma first_at_decomp: "i \<notin> snd ` set p \<Longrightarrow> first_at (p @ (t0, i) # q) i = Some t0"
  by (induction p) (auto simp: first_at_def)

lemma timely_snoc:
  assumes "timely (p @ [(t, k)])"
  shows "timely p" and "\<exists>t0. first_at (p @ [(t, k)]) k = Some t0 \<and> t < t0 + lockTTL"
proof -
  have all: "\<forall>ti\<in>set (p @ [(t, k)]). case first_at (p @ [(t, k)]) (snd ti) of
                      None \<Rightarrow> False | Some t0 \<Rightarrow> fst ti < t0 + lockTTL"
    using assms by (simp add: timely_def list_all_iff)
  show "timely p"
    unfolding timely_def list_all_iff
  proof
    fix ti assume ti: "ti \<in> set p"
    then have "first_at p (snd ti) \<noteq> None" by (simp add: first_at_None_iff)
    then obtain x where x: "first_at p (snd ti) = Some x" by auto
    then have "first_at (p @ [(t, k)]) (snd ti) = Some x" by (simp add: first_at_snoc)
    then show "case first_at p (snd ti) of None \<Rightarrow> False | Some t0 \<Rightarrow> fst ti < t0 + lockTTL"
      using all ti x by force
  qed
  show "\<exists>t0. first_at (p @ [(t, k)]) k = Some t0 \<and> t < t0 + lockTTL"
    using all by (auto split: option.splits)
qed

lemma lock_key_inj [simp]: "lock_key a = lock_key b \<longleftrightarrow> a = b"
  by (simp add: lock_key_def)

lemma accept_step_Start_free:
  assumes "call_pc p = Start" "valkey_get now (lock_key (call_conversationId p)) (w_valkey w) = None"
  shows "accept_step now p w =
     (p\<lparr>call_pc := Locked\<rparr>,
      w\<lparr>w_valkey := (w_valkey w)(lock_key (call_conversationId p) \<mapsto>
           (call_agentId p, Some (now + lockTTL)))\<rparr>)"
  using assms by (simp add: accept_step_def acquireLock_def Let_def)

lemma accept_step_Start_taken:
  assumes "call_pc p = Start" "valkey_get now (lock_key (call_conversationId p)) (w_valkey w) \<noteq> None"
  shows "accept_step now p w = (p\<lparr>call_pc := Finished (Inl BP)\<rparr>, w)"
  using assms by (auto simp: accept_step_def acquireLock_def Let_def BP_def)

lemma accept_step_inside:
  assumes "call_pc p \<in> {Locked, Checked, Updated, Logged}"
  shows "in_cs (call_pc (fst (accept_step now p w)))"
    and "call_pc (fst (accept_step now p w)) \<noteq> Start"
    and "w_valkey (snd (accept_step now p w)) = w_valkey w"
  using assms
  by (auto simp: accept_step_def Let_def split: sum.splits option.splits)

lemma accept_step_Releasing:
  assumes "call_pc p = Releasing r"
  shows "accept_step now p w =
     (p\<lparr>call_pc := Finished r\<rparr>,
      w\<lparr>w_valkey := (w_valkey w)(lock_key (call_conversationId p) := None)\<rparr>)"
  using assms by (simp add: accept_step_def releaseLock_def Let_def)

lemma accept_step_Finished:
  assumes "call_pc p = Finished r"
  shows "accept_step now p w = (p, w)"
  using assms by (simp add: accept_step_def Let_def)


lemma sys_step_in:
  "k < length calls \<Longrightarrow> sys_step (now, k) (calls, w) =
     (calls[k := fst (accept_step now (calls ! k) w)], snd (accept_step now (calls ! k) w))"
  by (simp add: sys_step_def Let_def split: prod.splits)

lemma sys_step_out: "\<not> k < length calls \<Longrightarrow> sys_step (now, k) (calls, w) = (calls, w)"
  by (simp add: sys_step_def Let_def)

lemma lock_invI:
  assumes "\<And>i. i < length calls \<Longrightarrow> (call_pc (calls ! i) = Start) = (first_at sched i = None)"
    and "\<And>i. live now sched calls i \<Longrightarrow>
           w_valkey w (lock_key (call_conversationId (calls ! i))) =
             Some (call_agentId (calls ! i), Some (the (first_at sched i) + lockTTL))"
    and "\<And>i j. live now sched calls i \<Longrightarrow> live now sched calls j \<Longrightarrow>
           call_conversationId (calls ! j) = call_conversationId (calls ! i) \<Longrightarrow> j = i"
  shows "lock_inv now sched (calls, w)"
  using assms unfolding lock_inv_def Let_def fst_conv snd_conv by blast

lemma lock_invD:
  assumes "lock_inv now sched (calls, w)"
  shows "\<And>i. i < length calls \<Longrightarrow> (call_pc (calls ! i) = Start) = (first_at sched i = None)"
    and "\<And>i. live now sched calls i \<Longrightarrow>
           w_valkey w (lock_key (call_conversationId (calls ! i))) =
             Some (call_agentId (calls ! i), Some (the (first_at sched i) + lockTTL))"
    and "\<And>i j. live now sched calls i \<Longrightarrow> live now sched calls j \<Longrightarrow>
           call_conversationId (calls ! j) = call_conversationId (calls ! i) \<Longrightarrow> j = i"
proof -
  have all: "(\<forall>i<length calls. (call_pc (calls ! i) = Start) = (first_at sched i = None)) \<and>
      (\<forall>i. live now sched calls i \<longrightarrow>
         w_valkey w (lock_key (call_conversationId (calls ! i))) =
           Some (call_agentId (calls ! i), Some (the (first_at sched i) + lockTTL)) \<and>
         (\<forall>j. live now sched calls j \<and>
               call_conversationId (calls ! j) = call_conversationId (calls ! i) \<longrightarrow> j = i))"
    using assms unfolding lock_inv_def Let_def fst_conv snd_conv .
  show "\<And>i. i < length calls \<Longrightarrow> (call_pc (calls ! i) = Start) = (first_at sched i = None)"
    using all by blast
  show "\<And>i. live now sched calls i \<Longrightarrow>
           w_valkey w (lock_key (call_conversationId (calls ! i))) =
             Some (call_agentId (calls ! i), Some (the (first_at sched i) + lockTTL))"
    using all by blast
  show "\<And>i j. live now sched calls i \<Longrightarrow> live now sched calls j \<Longrightarrow>
           call_conversationId (calls ! j) = call_conversationId (calls ! i) \<Longrightarrow> j = i"
    using all by blast
qed

lemma live_held:
  assumes inv: "lock_inv now sched (calls, w)" and l: "live now sched calls i"
  shows "valkey_get now (lock_key (call_conversationId (calls ! i))) (w_valkey w) =
           Some (call_agentId (calls ! i))"
proof -
  obtain t0 where t0: "first_at sched i = Some t0" "now < t0 + lockTTL"
    using l by (auto simp: live_def split: option.splits)
  show ?thesis using lock_invD(2)[OF inv l] t0 by (simp add: valkey_get_def)
qed

lemma lock_inv_step:
  assumes inv: "lock_inv now sched (calls, w)"
    and tm: "\<And>t0. first_at sched k = Some t0 \<Longrightarrow> now < t0 + lockTTL"
  shows "lock_inv now (sched @ [(now, k)]) (sys_step (now, k) (calls, w))"
proof (cases "k < length calls")
  case False
  then have F: "\<And>i. i < length calls \<Longrightarrow> first_at (sched @ [(now, k)]) i = first_at sched i"
    by (auto simp: first_at_snoc split: option.splits)
  then have L: "\<And>i. live now (sched @ [(now, k)]) calls i = live now sched calls i"
    by (auto simp: live_def)
  show ?thesis
    unfolding sys_step_out[OF False]
  proof (rule lock_invI)
    fix i assume "i < length calls"
    then show "(call_pc (calls ! i) = Start) = (first_at (sched @ [(now, k)]) i = None)"
      using lock_invD(1)[OF inv] F by simp
  next
    fix i assume l: "live now (sched @ [(now, k)]) calls i"
    then have "i < length calls" by (simp add: live_def)
    then show "w_valkey w (lock_key (call_conversationId (calls ! i))) =
      Some (call_agentId (calls ! i), Some (the (first_at (sched @ [(now, k)]) i) + lockTTL))"
      using lock_invD(2)[OF inv] l F L by simp
  next
    fix i j assume "live now (sched @ [(now, k)]) calls i" "live now (sched @ [(now, k)]) calls j"
      "call_conversationId (calls ! j) = call_conversationId (calls ! i)"
    then show "j = i" using lock_invD(3)[OF inv] L by simp
  qed
next
  case k: True
  define p where "p = calls ! k"
  define key where "key = lock_key (call_conversationId p)"
  note A = lock_invD(1)[OF inv] and B = lock_invD(2)[OF inv] and U = lock_invD(3)[OF inv]
  have Fo: "\<And>i. i \<noteq> k \<Longrightarrow> first_at (sched @ [(now, k)]) i = first_at sched i"
    by (auto simp: first_at_snoc split: option.splits)
  show ?thesis
  proof (cases "call_pc p = Start")
    case True
    then have Fk: "first_at sched k = None" using A[OF k] by (simp add: p_def)
    then have Fk': "first_at (sched @ [(now, k)]) k = Some now" by (simp add: first_at_snoc)
    show ?thesis
    proof (cases "valkey_get now key (w_valkey w) = None")
      case free: True
      define calls' where "calls' = calls[k := p\<lparr>call_pc := Locked\<rparr>]"
      define w' where "w' = w\<lparr>w_valkey := (w_valkey w)(key \<mapsto> (call_agentId p, Some (now + lockTTL)))\<rparr>"
      have st: "sys_step (now, k) (calls, w) = (calls', w')"
        using accept_step_Start_free[OF True, of now w] free
        by (simp add: sys_step_in[OF k] p_def[symmetric] key_def calls'_def w'_def)
      have nolive: "\<And>i. live now sched calls i \<Longrightarrow>
          call_conversationId (calls ! i) \<noteq> call_conversationId p"
      proof
        fix i assume l: "live now sched calls i" and c: "call_conversationId (calls ! i) = call_conversationId p"
        from live_held[OF inv l] c free show False by (simp add: key_def)
      qed
      have notk: "\<not> live now sched calls k" using Fk by (simp add: live_def)
      have Lk: "live now (sched @ [(now, k)]) calls' k"
        using k Fk' by (simp add: live_def calls'_def lockTTL_def)
      have Lo: "\<And>i. i \<noteq> k \<Longrightarrow> live now (sched @ [(now, k)]) calls' i = live now sched calls i"
        using Fo by (simp add: live_def calls'_def)
      have ids: "\<And>i. i < length calls \<Longrightarrow> call_conversationId (calls' ! i) = call_conversationId (calls ! i)
          \<and> call_agentId (calls' ! i) = call_agentId (calls ! i)"
        using k by (auto simp: calls'_def nth_list_update p_def)
      show ?thesis
        unfolding st
      proof (rule lock_invI)
        fix i assume i: "i < length calls'"
        show "(call_pc (calls' ! i) = Start) = (first_at (sched @ [(now, k)]) i = None)"
        proof (cases "i = k")
          case True then show ?thesis using k Fk' by (simp add: calls'_def)
        next
          case False then show ?thesis using i A[of i] Fo by (simp add: calls'_def)
        qed
      next
        fix i assume l: "live now (sched @ [(now, k)]) calls' i"
        show "w_valkey w' (lock_key (call_conversationId (calls' ! i))) =
           Some (call_agentId (calls' ! i), Some (the (first_at (sched @ [(now, k)]) i) + lockTTL))"
        proof (cases "i = k")
          case True then show ?thesis using k Fk' by (simp add: calls'_def w'_def key_def)
        next
          case False
          then have lo: "live now sched calls i" using l Lo by simp
          then have il: "i < length calls" by (simp add: live_def)
          have "lock_key (call_conversationId (calls ! i)) \<noteq> key"
            using nolive[OF lo] by (simp add: key_def)
          then show ?thesis using B[OF lo] False Fo ids[OF il] by (simp add: w'_def)
        qed
      next
        fix i j assume li: "live now (sched @ [(now, k)]) calls' i"
          and lj: "live now (sched @ [(now, k)]) calls' j"
          and c: "call_conversationId (calls' ! j) = call_conversationId (calls' ! i)"
        have il: "i < length calls" and jl: "j < length calls"
          using li lj by (simp_all add: live_def calls'_def)
        have c': "call_conversationId (calls ! j) = call_conversationId (calls ! i)"
          using c ids[OF il] ids[OF jl] by simp
        show "j = i"
        proof (cases "i = k")
          case ik: True
          show ?thesis
          proof (rule ccontr)
            assume "j \<noteq> i"
            then have "live now sched calls j" using lj Lo ik by simp
            from nolive[OF this] c' ik show False by (simp add: p_def)
          qed
        next
          case ik: False
          then have lio: "live now sched calls i" using li Lo by simp
          show ?thesis
          proof (cases "j = k")
            case True
            from nolive[OF lio] c' True show ?thesis by (simp add: p_def)
          next
            case False
            then have "live now sched calls j" using lj Lo by simp
            from U[OF lio this c'] show ?thesis .
          qed
        qed
      qed
    next
      case taken: False
      define calls' where "calls' = calls[k := p\<lparr>call_pc := Finished (Inl BP)\<rparr>]"
      have st: "sys_step (now, k) (calls, w) = (calls', w)"
        using accept_step_Start_taken[OF True, of now w] taken
        by (simp add: sys_step_in[OF k] p_def[symmetric] key_def calls'_def)
      have notk: "\<not> live now (sched @ [(now, k)]) calls' k"
        using k by (simp add: live_def calls'_def)
      have Lo: "\<And>i. i \<noteq> k \<Longrightarrow> live now (sched @ [(now, k)]) calls' i = live now sched calls i"
        using Fo by (simp add: live_def calls'_def)
      have ids: "\<And>i. i \<noteq> k \<Longrightarrow> calls' ! i = calls ! i" by (simp add: calls'_def)
      show ?thesis
        unfolding st
      proof (rule lock_invI)
        fix i assume i: "i < length calls'"
        show "(call_pc (calls' ! i) = Start) = (first_at (sched @ [(now, k)]) i = None)"
        proof (cases "i = k")
          case True then show ?thesis using k Fk' by (simp add: calls'_def)
        next
          case False then show ?thesis using i A[of i] Fo by (simp add: calls'_def)
        qed
      next
        fix i assume l: "live now (sched @ [(now, k)]) calls' i"
        then have ik: "i \<noteq> k" using notk by auto
        then have "live now sched calls i" using l Lo by simp
        from B[OF this] show "w_valkey w (lock_key (call_conversationId (calls' ! i))) =
           Some (call_agentId (calls' ! i), Some (the (first_at (sched @ [(now, k)]) i) + lockTTL))"
          using ik Fo ids by simp
      next
        fix i j assume li: "live now (sched @ [(now, k)]) calls' i"
          and lj: "live now (sched @ [(now, k)]) calls' j"
          and c: "call_conversationId (calls' ! j) = call_conversationId (calls' ! i)"
        have ik: "i \<noteq> k" and jk: "j \<noteq> k" using li lj notk by auto
        then have "live now sched calls i" "live now sched calls j" using li lj Lo by simp_all
        from U[OF this] c ik jk ids show "j = i" by simp
      qed
    qed
  next
    case nStart: False
    then obtain t0 where Fk: "first_at sched k = Some t0" using A[OF k] by (auto simp: p_def)
    then have F: "\<And>i. first_at (sched @ [(now, k)]) i = first_at sched i"
      by (auto simp: first_at_snoc split: option.splits)
    have tk: "now < t0 + lockTTL" using tm[OF Fk] .
    have lk: "in_cs (call_pc p) \<Longrightarrow> live now sched calls k"
      using k Fk tk by (simp add: live_def p_def)
    show ?thesis
    proof (cases "\<exists>r. call_pc p = Releasing r")
      case True
      then obtain r where r: "call_pc p = Releasing r" by auto
      define calls' where "calls' = calls[k := p\<lparr>call_pc := Finished r\<rparr>]"
      define w' where "w' = w\<lparr>w_valkey := (w_valkey w)(key := None)\<rparr>"
      have st: "sys_step (now, k) (calls, w) = (calls', w')"
        using accept_step_Releasing[OF r, of now w]
        by (simp add: sys_step_in[OF k] p_def[symmetric] key_def calls'_def w'_def)
      have lk': "live now sched calls k" using lk r by simp
      have notk: "\<not> live now (sched @ [(now, k)]) calls' k"
        using k by (simp add: live_def calls'_def)
      have Lo: "\<And>i. i \<noteq> k \<Longrightarrow> live now (sched @ [(now, k)]) calls' i = live now sched calls i"
        using F by (simp add: live_def calls'_def)
      have ids: "\<And>i. i \<noteq> k \<Longrightarrow> calls' ! i = calls ! i" by (simp add: calls'_def)
      show ?thesis
        unfolding st
      proof (rule lock_invI)
        fix i assume i: "i < length calls'"
        show "(call_pc (calls' ! i) = Start) = (first_at (sched @ [(now, k)]) i = None)"
        proof (cases "i = k")
          case True then show ?thesis using k Fk F by (simp add: calls'_def)
        next
          case False then show ?thesis using i A[of i] F by (simp add: calls'_def)
        qed
      next
        fix i assume l: "live now (sched @ [(now, k)]) calls' i"
        then have ik: "i \<noteq> k" using notk by auto
        then have lo: "live now sched calls i" using l Lo by simp
        have "call_conversationId (calls ! i) \<noteq> call_conversationId p"
          using U[OF lo lk'] ik by (auto simp: p_def)
        then have "lock_key (call_conversationId (calls ! i)) \<noteq> key" by (simp add: key_def)
        then show "w_valkey w' (lock_key (call_conversationId (calls' ! i))) =
           Some (call_agentId (calls' ! i), Some (the (first_at (sched @ [(now, k)]) i) + lockTTL))"
          using B[OF lo] ik F ids by (simp add: w'_def)
      next
        fix i j assume li: "live now (sched @ [(now, k)]) calls' i"
          and lj: "live now (sched @ [(now, k)]) calls' j"
          and c: "call_conversationId (calls' ! j) = call_conversationId (calls' ! i)"
        have ik: "i \<noteq> k" and jk: "j \<noteq> k" using li lj notk by auto
        then have "live now sched calls i" "live now sched calls j" using li lj Lo by simp_all
        from U[OF this] c ik jk ids show "j = i" by simp
      qed
    next
      case nRel: False
      show ?thesis
      proof (cases "\<exists>r. call_pc p = Finished r")
        case True
        then obtain r where r: "call_pc p = Finished r" by auto
        have st: "sys_step (now, k) (calls, w) = (calls, w)"
          using accept_step_Finished[OF r, of now w]
          by (simp add: sys_step_in[OF k] p_def[symmetric]) (simp add: p_def)
        have L: "\<And>i. live now (sched @ [(now, k)]) calls i = live now sched calls i"
          using F by (simp add: live_def)
        show ?thesis
          unfolding st
        proof (rule lock_invI)
          fix i assume "i < length calls"
          then show "(call_pc (calls ! i) = Start) = (first_at (sched @ [(now, k)]) i = None)"
            using A F by simp
        next
          fix i assume "live now (sched @ [(now, k)]) calls i"
          then show "w_valkey w (lock_key (call_conversationId (calls ! i))) =
            Some (call_agentId (calls ! i), Some (the (first_at (sched @ [(now, k)]) i) + lockTTL))"
            using B L F by simp
        next
          fix i j assume "live now (sched @ [(now, k)]) calls i" "live now (sched @ [(now, k)]) calls j"
            "call_conversationId (calls ! j) = call_conversationId (calls ! i)"
          then show "j = i" using U L by simp
        qed
      next
        case False
        then have ins: "call_pc p \<in> {Locked, Checked, Updated, Logged}"
          using nStart nRel by (cases "call_pc p") auto
        define p' where "p' = fst (accept_step now p w)"
        define w' where "w' = snd (accept_step now p w)"
        define calls' where "calls' = calls[k := p']"
        have st: "sys_step (now, k) (calls, w) = (calls', w')"
          by (simp add: sys_step_in[OF k] p_def[symmetric] calls'_def w'_def p'_def)
        have p': "in_cs (call_pc p')" "call_pc p' \<noteq> Start" "w_valkey w' = w_valkey w"
          "call_conversationId p' = call_conversationId p" "call_agentId p' = call_agentId p"
          using accept_step_inside[OF ins, of now w] accept_step_ids[of now p w]
          by (simp_all add: p'_def w'_def)
        have incs: "in_cs (call_pc p)" using ins by auto
        have ids: "\<And>i. i < length calls \<Longrightarrow>
            call_conversationId (calls' ! i) = call_conversationId (calls ! i) \<and>
            call_agentId (calls' ! i) = call_agentId (calls ! i)"
          using p' k by (auto simp: calls'_def nth_list_update p_def)
        have L: "\<And>i. live now (sched @ [(now, k)]) calls' i = live now sched calls i"
          using F p'(1) incs k by (auto simp: live_def calls'_def nth_list_update p_def)
        show ?thesis
          unfolding st
        proof (rule lock_invI)
          fix i assume i: "i < length calls'"
          show "(call_pc (calls' ! i) = Start) = (first_at (sched @ [(now, k)]) i = None)"
          proof (cases "i = k")
            case True then show ?thesis using k Fk F p'(2) by (simp add: calls'_def)
          next
            case False then show ?thesis using i A[of i] F by (simp add: calls'_def)
          qed
        next
          fix i assume l: "live now (sched @ [(now, k)]) calls' i"
          then have lo: "live now sched calls i" using L by simp
          then have il: "i < length calls" by (simp add: live_def)
          show "w_valkey w' (lock_key (call_conversationId (calls' ! i))) =
            Some (call_agentId (calls' ! i), Some (the (first_at (sched @ [(now, k)]) i) + lockTTL))"
            using B[OF lo] F ids[OF il] p'(3) by simp
        next
          fix i j assume li: "live now (sched @ [(now, k)]) calls' i"
            and lj: "live now (sched @ [(now, k)]) calls' j"
            and c: "call_conversationId (calls' ! j) = call_conversationId (calls' ! i)"
          have lio: "live now sched calls i" and ljo: "live now sched calls j" using li lj L by simp_all
          then have "i < length calls" "j < length calls" by (simp_all add: live_def)
          then have "call_conversationId (calls ! j) = call_conversationId (calls ! i)"
            using c ids by simp
          from U[OF lio ljo this] show "j = i" .
        qed
      qed
    qed
  qed
qed

lemma run_snoc: "run (sched @ [ti]) s = sys_step ti (run sched s)"
  by (simp add: run_def)

lemma lock_inv_mono:
  assumes inv: "lock_inv t sched (calls, w)" and le: "t \<le> t'"
  shows "lock_inv t' sched (calls, w)"
proof -
  have L: "\<And>i. live t' sched calls i \<Longrightarrow> live t sched calls i"
    using le by (auto simp: live_def split: option.splits)
  show ?thesis
  proof (rule lock_invI)
    fix i assume "i < length calls"
    then show "(call_pc (calls ! i) = Start) = (first_at sched i = None)"
      using lock_invD(1)[OF inv] by simp
  next
    fix i assume "live t' sched calls i"
    then show "w_valkey w (lock_key (call_conversationId (calls ! i))) =
        Some (call_agentId (calls ! i), Some (the (first_at sched i) + lockTTL))"
      using lock_invD(2)[OF inv] L by simp
  next
    fix i j assume "live t' sched calls i" "live t' sched calls j"
      "call_conversationId (calls ! j) = call_conversationId (calls ! i)"
    then show "j = i" using lock_invD(3)[OF inv] L by blast
  qed
qed

lemma lock_inv_run:
  assumes start: "list_all (\<lambda>p. call_pc p = Start) calls"
  shows "sorted (map fst sched) \<Longrightarrow> timely sched \<Longrightarrow> (\<forall>ti\<in>set sched. fst ti \<le> now) \<Longrightarrow>
         lock_inv now sched (run sched (calls, w))"
proof (induction sched arbitrary: now rule: rev_induct)
  case Nil
  have "lock_inv now [] (calls, w)"
  proof (rule lock_invI)
    fix i assume "i < length calls"
    then show "(call_pc (calls ! i) = Start) = (first_at [] i = None)"
      using start by (simp add: list_all_length first_at_def)
  next
    fix i assume "live now [] calls i"
    then show "w_valkey w (lock_key (call_conversationId (calls ! i))) =
        Some (call_agentId (calls ! i), Some (the (first_at [] i) + lockTTL))"
      by (simp add: live_def first_at_def)
  next
    fix i j assume "live now [] calls i"
    then show "j = i" by (simp add: live_def first_at_def)
  qed
  then show ?case by (simp add: run_def)
next
  case (snoc ti sched)
  obtain t k where ti: "ti = (t, k)" by (cases ti)
  have sorted: "sorted (map fst sched)" and below: "\<forall>x\<in>set sched. fst x \<le> t"
    using snoc.prems(1) by (auto simp: ti sorted_append)
  have tl: "timely sched" and tk: "\<exists>t0. first_at (sched @ [(t, k)]) k = Some t0 \<and> t < t0 + lockTTL"
    using timely_snoc[of sched t k] snoc.prems(2) by (simp_all add: ti)
  have le: "t \<le> now" using snoc.prems(3) by (simp add: ti)
  obtain cs w1 where s: "run sched (calls, w) = (cs, w1)" by (cases "run sched (calls, w)")
  have inv: "lock_inv t sched (cs, w1)" using snoc.IH[OF sorted tl below] s by simp
  have tm: "\<And>t0. first_at sched k = Some t0 \<Longrightarrow> t < t0 + lockTTL"
    using tk by (auto simp: first_at_snoc)
  obtain cs' w' where s': "sys_step (t, k) (cs, w1) = (cs', w')" by (cases "sys_step (t, k) (cs, w1)")
  have "lock_inv t (sched @ [(t, k)]) (cs', w')"
    using lock_inv_step[OF inv, of k] tm s' by simp
  from lock_inv_mono[OF this le] show ?case by (simp add: run_snoc ti s s')
qed

lemma ids_sys_step:
  assumes "i < length (fst s)"
  shows "call_conversationId (fst (sys_step ti s) ! i) = call_conversationId (fst s ! i) \<and>
         call_agentId (fst (sys_step ti s) ! i) = call_agentId (fst s ! i)"
  using assms accept_step_ids[of "fst ti" "fst s ! snd ti" "snd s"]
  by (auto simp: sys_step_def Let_def nth_list_update split: prod.splits)

lemma ids_run:
  assumes "i < length (fst s)"
  shows "call_conversationId (fst (run sched s) ! i) = call_conversationId (fst s ! i) \<and>
         call_agentId (fst (run sched s) ! i) = call_agentId (fst s ! i)"
  using assms
proof (induction sched rule: rev_induct)
  case Nil then show ?case by (simp add: run_def)
next
  case (snoc ti sched)
  have "i < length (fst (run sched s))" using snoc.prems by simp
  from ids_sys_step[OF this, of ti] snoc.IH[OF snoc.prems] show ?case by (simp add: run_snoc)
qed

lemma other_sys_step:
  assumes "i \<noteq> k"
  shows "fst (sys_step (t, k) s) ! i = fst s ! i"
  using assms by (auto simp: sys_step_def Let_def split: prod.splits)

lemma start_iff:
  assumes start: "list_all (\<lambda>p. call_pc p = Start) calls" and i: "i < length calls"
  shows "(call_pc (fst (run sched (calls, w)) ! i) = Start) = (i \<notin> snd ` set sched)"
proof (induction sched rule: rev_induct)
  case Nil
  then show ?case using start i by (simp add: list_all_length run_def)
next
  case (snoc ti sched)
  obtain t k where ti: "ti = (t, k)" by (cases ti)
  show ?case
  proof (cases "k = i")
    case True
    have il: "i < length (fst (run sched (calls, w)))" using i by simp
    from rank_sys_step[OF il, of "(t, i)"]
    have "1 \<le> rank (call_pc (fst (sys_step (t, i) (run sched (calls, w))) ! i))" by simp
    then have "call_pc (fst (sys_step (t, i) (run sched (calls, w))) ! i) \<noteq> Start"
      by (cases "call_pc (fst (sys_step (t, i) (run sched (calls, w))) ! i)") auto
    then show ?thesis using True by (simp add: run_snoc ti)
  next
    case False
    then show ?thesis using snoc.IH other_sys_step[of i k t] by (auto simp: run_snoc ti)
  qed
qed

lemma acquired_before:
  assumes start: "list_all (\<lambda>p. call_pc p = Start) calls" and i: "i < length calls"
  shows "in_cs (call_pc (fst (run sched (calls, w)) ! i)) \<Longrightarrow>
     \<exists>p t0 q. sched = p @ (t0, i) # q \<and> i \<notin> snd ` set p \<and>
        valkey_get t0 (lock_key (call_conversationId (calls ! i)))
          (w_valkey (snd (run p (calls, w)))) = None"
proof (induction sched rule: rev_induct)
  case Nil
  then show ?case using start i by (simp add: list_all_length run_def)
next
  case (snoc ti sched)
  obtain t k where ti: "ti = (t, k)" by (cases ti)
  define s where "s = run sched (calls, w)"
  have il: "i < length (fst s)" using i by (simp add: s_def)
  have cid: "call_conversationId (fst s ! i) = call_conversationId (calls ! i)"
    using ids_run[of i "(calls, w)" sched] i by (simp add: s_def)
  have ext: "in_cs (call_pc (fst s ! i)) \<Longrightarrow> ?case"
  proof -
    assume "in_cs (call_pc (fst s ! i))"
    from snoc.IH[OF this[unfolded s_def]] obtain p t0 q where
      "sched = p @ (t0, i) # q" "i \<notin> snd ` set p"
      "valkey_get t0 (lock_key (call_conversationId (calls ! i))) (w_valkey (snd (run p (calls, w)))) = None"
      by blast
    then have "sched @ [ti] = p @ (t0, i) # (q @ [ti]) \<and> i \<notin> snd ` set p \<and>
        valkey_get t0 (lock_key (call_conversationId (calls ! i))) (w_valkey (snd (run p (calls, w)))) = None"
      by simp
    then show ?case by (intro exI[of _ p] exI[of _ t0] exI[of _ "q @ [ti]"])
  qed
  show ?case
  proof (cases "k = i")
    case False
    then have "fst (sys_step (t, k) s) ! i = fst s ! i" using other_sys_step[of i k t s] by simp
    then have "in_cs (call_pc (fst s ! i))" using snoc.prems by (simp add: run_snoc ti s_def)
    then show ?thesis by (rule ext)
  next
    case True
    show ?thesis
    proof (cases "in_cs (call_pc (fst s ! i))")
      case True then show ?thesis by (rule ext)
    next
      case nin: False
      have after: "in_cs (call_pc (fst (sys_step (t, i) s) ! i))"
        using snoc.prems True by (simp add: run_snoc ti s_def)
      have st: "fst (sys_step (t, i) s) ! i = fst (accept_step t (fst s ! i) (snd s))"
        using il sys_step_in[OF il, of t "snd s"] by simp
      have "call_pc (fst s ! i) = Start"
      proof (rule ccontr)
        assume "call_pc (fst s ! i) \<noteq> Start"
        then obtain r where "call_pc (fst s ! i) = Finished r"
          using nin by (cases "call_pc (fst s ! i)") auto
        from accept_step_Finished[OF this, of t "snd s"] this after st show False by simp
      qed
      then have notin: "i \<notin> snd ` set sched"
        using start_iff[OF start i, of sched w] by (simp add: s_def)
      have free: "valkey_get t (lock_key (call_conversationId (fst s ! i))) (w_valkey (snd s)) = None"
      proof (rule ccontr)
        assume "valkey_get t (lock_key (call_conversationId (fst s ! i))) (w_valkey (snd s)) \<noteq> None"
        from accept_step_Start_taken[OF \<open>call_pc (fst s ! i) = Start\<close> this] after st
        show False by simp
      qed
      have "sched @ [ti] = sched @ (t, i) # [] \<and> i \<notin> snd ` set sched \<and>
          valkey_get t (lock_key (call_conversationId (calls ! i)))
            (w_valkey (snd (run sched (calls, w)))) = None"
        using True ti notin free cid by (simp add: s_def)
      then show ?thesis by (intro exI[of _ sched] exI[of _ t] exI[of _ "[]"])
    qed
  qed
qed


text \<open>
  C2 (as amended). Any number of \<open>accept\<close> calls, on any conversations, start on any
  state of the stores and run in any interleaving; call \<open>i\<close> has reached its \<open>finally\<close>
  block and issues its unlock at clock reading \<open>now\<close>. Then:
  \<^item> the call's own acquire succeeded: its first command \<open>(t0, i)\<close> found the lock key
    free (a call that is refused the lock never unlocks);
  \<^item> if the commands reach the coordination store in the order of its clock readings
    and every call issues each of its commands before the lock it acquired expires
    (less than \<open>lockTTL\<close> after its first command), the entry at the key is the one
    this call stored at \<open>t0\<close>, it is in force, and its value is the call's own agent
    id;
  \<^item> after the unlock the key is absent: \<open>releaseLock\<close> compares no owner.
\<close>

theorem unlock_removes_own_entry:
  assumes start: "list_all (\<lambda>p. call_pc p = Start) calls"
    and i: "i < length calls"
    and rel: "call_pc (fst (run sched (calls, w)) ! i) = Releasing r"
  shows "\<exists>p t0 q.
      sched = p @ (t0, i) # q \<and> i \<notin> snd ` set p \<and>
      valkey_get t0 (lock_key (call_conversationId (calls ! i)))
        (w_valkey (snd (run p (calls, w)))) = None \<and>
      (sorted (map fst (sched @ [(now, i)])) \<and> timely (sched @ [(now, i)]) \<longrightarrow>
         w_valkey (snd (run sched (calls, w))) (lock_key (call_conversationId (calls ! i))) =
           Some (call_agentId (calls ! i), Some (t0 + lockTTL)) \<and>
         valkey_get now (lock_key (call_conversationId (calls ! i)))
           (w_valkey (snd (run sched (calls, w)))) = Some (call_agentId (calls ! i))) \<and>
      w_valkey (snd (run (sched @ [(now, i)]) (calls, w)))
        (lock_key (call_conversationId (calls ! i))) = None"
proof -
  define key where "key = lock_key (call_conversationId (calls ! i))"
  obtain cs w1 where s: "run sched (calls, w) = (cs, w1)" by (cases "run sched (calls, w)")
  have len: "length cs = length calls" using length_run[of sched "(calls, w)"] s by simp
  have il: "i < length cs" using i len by simp
  have ids: "call_conversationId (cs ! i) = call_conversationId (calls ! i)"
      "call_agentId (cs ! i) = call_agentId (calls ! i)"
    using ids_run[of i "(calls, w)" sched] i s by simp_all
  have pci: "call_pc (cs ! i) = Releasing r" using rel s by simp
  then have "in_cs (call_pc (fst (run sched (calls, w)) ! i))" using s by simp
  from acquired_before[OF start i this] obtain p t0 q where
    dec: "sched = p @ (t0, i) # q" "i \<notin> snd ` set p"
      "valkey_get t0 key (w_valkey (snd (run p (calls, w)))) = None"
    unfolding key_def by blast
  have F: "first_at sched i = Some t0" using dec(1,2) by (simp add: first_at_decomp)
  have after: "w_valkey (snd (run (sched @ [(now, i)]) (calls, w))) key = None"
    using accept_step_Releasing[OF pci, of now w1] ids
    by (simp add: run_snoc s sys_step_in[OF il] key_def)
  have w1: "w1 = snd (run sched (calls, w))" using s by simp
  have own: "sorted (map fst (sched @ [(now, i)])) \<and> timely (sched @ [(now, i)]) \<longrightarrow>
      w_valkey (snd (run sched (calls, w))) key =
        Some (call_agentId (calls ! i), Some (t0 + lockTTL)) \<and>
      valkey_get now key (w_valkey (snd (run sched (calls, w)))) = Some (call_agentId (calls ! i))"
  proof (intro impI, elim conjE)
    assume so: "sorted (map fst (sched @ [(now, i)]))" and tm: "timely (sched @ [(now, i)])"
    have sorted: "sorted (map fst sched)" and below: "\<forall>x\<in>set sched. fst x \<le> now"
      using so by (auto simp: sorted_append)
    have tl: "timely sched" using timely_snoc(1)[OF tm] .
    have lt: "now < t0 + lockTTL"
      using timely_snoc(2)[OF tm] F by (auto simp: first_at_snoc)
    have inv: "lock_inv now sched (cs, w1)"
      using lock_inv_run[OF start sorted tl below, of w] s by simp
    have l: "live now sched cs i" using il pci F lt by (simp add: live_def)
    have e: "w_valkey w1 key = Some (call_agentId (calls ! i), Some (t0 + lockTTL))"
      using lock_invD(2)[OF inv l] ids F by (simp add: key_def)
    then have "valkey_get now key (w_valkey w1) = Some (call_agentId (calls ! i))"
      using lt by (simp add: valkey_get_def)
    then show "w_valkey (snd (run sched (calls, w))) key =
        Some (call_agentId (calls ! i), Some (t0 + lockTTL)) \<and>
      valkey_get now key (w_valkey (snd (run sched (calls, w)))) = Some (call_agentId (calls ! i))"
      using e unfolding w1 by simp
  qed
  have "sched = p @ (t0, i) # q \<and> i \<notin> snd ` set p \<and>
      valkey_get t0 key (w_valkey (snd (run p (calls, w)))) = None \<and>
      (sorted (map fst (sched @ [(now, i)])) \<and> timely (sched @ [(now, i)]) \<longrightarrow>
         w_valkey (snd (run sched (calls, w))) key =
           Some (call_agentId (calls ! i), Some (t0 + lockTTL)) \<and>
         valkey_get now key (w_valkey (snd (run sched (calls, w)))) = Some (call_agentId (calls ! i))) \<and>
      w_valkey (snd (run (sched @ [(now, i)]) (calls, w))) key = None"
    using dec after own by blast
  then show ?thesis unfolding key_def by (intro exI[of _ p] exI[of _ t0] exI[of _ q])
qed

lemma ex_unlock_pc:
  "call_pc (fst (run ex_sched_unlock (start_calls ''c1'' [''a1'', ''a2''], ex_world COMPLETED None)) ! 0) =
     Releasing (Inl NA)"
  by (simp add: ex_sched_unlock_def accept_eval NA_def)

lemma ex_unlock_timely:
  "sorted (map fst (ex_sched_unlock @ [(3, 0)])) \<and> timely (ex_sched_unlock @ [(3, 0)])"
  by (simp add: ex_sched_unlock_def timely_def first_at_def lockTTL_def)

theorem unlock_removes_own_entry_witness:
  "call_agentId (start_calls ''c1'' [''a1'', ''a2''] ! 0) = ''a1'' \<and>
   list_all (\<lambda>p. call_pc p = Start) (start_calls ''c1'' [''a1'', ''a2'']) \<and>
   call_pc (fst (run ex_sched_unlock (start_calls ''c1'' [''a1'', ''a2''], ex_world COMPLETED None)) ! 0) =
     Releasing (Inl NA) \<and>
   sorted (map fst (ex_sched_unlock @ [(3, 0)])) \<and> timely (ex_sched_unlock @ [(3, 0)]) \<and>
   valkey_get 3 (lock_key (call_conversationId (start_calls ''c1'' [''a1'', ''a2''] ! 0)))
     (w_valkey (snd (run ex_sched_unlock (start_calls ''c1'' [''a1'', ''a2''], ex_world COMPLETED None)))) =
     Some (call_agentId (start_calls ''c1'' [''a1'', ''a2''] ! 0)) \<and>
   w_valkey (snd (run (ex_sched_unlock @ [(3, 0)]) (start_calls ''c1'' [''a1'', ''a2''], ex_world COMPLETED None)))
     (lock_key (call_conversationId (start_calls ''c1'' [''a1'', ''a2''] ! 0))) = None"
proof -
  have h0: "call_agentId (start_calls ''c1'' [''a1'', ''a2''] ! 0) = ''a1''"
    by (simp add: start_calls_def)
  have h1: "list_all (\<lambda>p. call_pc p = Start) (start_calls ''c1'' [''a1'', ''a2''])"
    by (simp add: start_calls_def)
  have h2: "0 < length (start_calls ''c1'' [''a1'', ''a2''])" by (simp add: start_calls_def)
  from unlock_removes_own_entry[OF h1 h2 ex_unlock_pc, of 3] h0 h1 ex_unlock_pc ex_unlock_timely
  show ?thesis by blast
qed

text \<open>
  The unlock is not owner-scoped: in \<open>ex_sched_stale\<close> the lock of the first call
  (agent a1) has expired and the key holds the lock of the second call (agent a2) when
  the first call reaches its \<open>finally\<close> block; its \<open>releaseLock\<close> deletes the key all
  the same. The commands arrive in the order of the clock readings; the first call
  issues commands after its lock has expired.
\<close>

theorem release_owner_scoped_counterexample:
  "call_agentId (fst (run ex_sched_stale (start_calls ''c1'' [''a1'', ''a2''], ex_world PENDING None)) ! 0) = ''a1'' \<and>
   call_pc (fst (run ex_sched_stale (start_calls ''c1'' [''a1'', ''a2''], ex_world PENDING None)) ! 0) =
     Releasing (Inr (ex_conv ASSIGNED (Some ''a1''))) \<and>
   w_valkey (snd (run ex_sched_stale (start_calls ''c1'' [''a1'', ''a2''], ex_world PENDING None)))
     (lock_key ''c1'') = Some (''a2'', Some 10001) \<and>
   valkey_get 5006 (lock_key ''c1'')
     (w_valkey (snd (run ex_sched_stale (start_calls ''c1'' [''a1'', ''a2''], ex_world PENDING None)))) =
     Some ''a2'' \<and>
   w_valkey (snd (run (ex_sched_stale @ [(5006, 0)])
     (start_calls ''c1'' [''a1'', ''a2''], ex_world PENDING None))) (lock_key ''c1'') = None \<and>
   sorted (map fst (ex_sched_stale @ [(5006, 0)])) \<and>
   \<not> timely (ex_sched_stale @ [(5006, 0)])"
  by (simp add: ex_sched_stale_def accept_eval timely_def first_at_def)

section \<open>Message status updates (C4)\<close>

lemma messages_findById_update:
  assumes "\<And>m. m_id (f m) = m_id m"
  shows "messages_findById mid (d\<lparr>messages := update_where (\<lambda>m. m_id m = mid) f (messages d)\<rparr>) =
         map_option f (messages_findById mid d)"
  using assms by (simp add: messages_findById_def select_first_update_where_key)

lemma messages_findById_events_create [simp]:
  "messages_findById mid (events_create c t a m d) = messages_findById mid d"
  by (simp add: messages_findById_def events_create_def)

text \<open>
  C4 (as amended). A status update of a stored message writes the status it carries,
  whatever status is stored: \<open>updateStatus\<close> never compares the two, so no update is
  dropped and a later callback overwrites an earlier one.
\<close>

theorem updateStatus_overwrites:
  assumes "messages_findById mid d = Some m"
  shows "\<exists>m'. fst (updateStatus mid status errorCode errorMessage d) = Inr m' \<and>
              messages_findById mid (snd (updateStatus mid status errorCode errorMessage d)) = Some m' \<and>
              m_status m' = status"
  using assms
  by (auto simp: updateStatus_def messages_findByIdOrFail_def Let_def messages_findById_update
      split: option.splits)

lemmas messages_eval =
  updateStatus_def messages_findByIdOrFail_def messages_findById_def findByProviderMessageId_def
  markDelivered_def markRead_def handleWhatsAppStatus_def select_first_def update_where_def
  events_create_def ex_db_msgs_def ex_db_def ex_conv_def ex_message_def Let_def

theorem updateStatus_overwrites_witness:
  "messages_findById ''m1'' (ex_db_msgs [ex_conv ASSIGNED (Some ''a1'')] [ex_message ''m1'' (Some ''wamid.1'') READ 5]) =
     Some (ex_message ''m1'' (Some ''wamid.1'') READ 5) \<and>
   (\<exists>m'. fst (updateStatus ''m1'' SENT None None
             (ex_db_msgs [ex_conv ASSIGNED (Some ''a1'')] [ex_message ''m1'' (Some ''wamid.1'') READ 5])) = Inr m' \<and>
      messages_findById ''m1'' (snd (updateStatus ''m1'' SENT None None
             (ex_db_msgs [ex_conv ASSIGNED (Some ''a1'')] [ex_message ''m1'' (Some ''wamid.1'') READ 5]))) = Some m' \<and>
      m_status m' = SENT)"
proof -
  have h: "messages_findById ''m1'' (ex_db_msgs [ex_conv ASSIGNED (Some ''a1'')] [ex_message ''m1'' (Some ''wamid.1'') READ 5]) =
     Some (ex_message ''m1'' (Some ''wamid.1'') READ 5)"
    by (simp add: messages_eval)
  from updateStatus_overwrites[OF h, of SENT None None] h show ?thesis by blast
qed

text \<open>
  A message that is READ receives the late callback \<open>delivered\<close> of the provider: the
  stored status goes back to DELIVERED.
\<close>

theorem status_regression_counterexample:
  "map m_status (messages (ex_db_msgs [ex_conv ASSIGNED (Some ''a1'')]
       [ex_message ''m1'' (Some ''wamid.1'') READ 5])) = [READ] \<and>
   map m_status (messages (snd (handleWhatsAppStatus \<lparr>ws_id = ''wamid.1'', ws_status = ''delivered''\<rparr>
     (ex_db_msgs [ex_conv ASSIGNED (Some ''a1'')] [ex_message ''m1'' (Some ''wamid.1'') READ 5])))) = [DELIVERED]"
  by (simp add: messages_eval)


section \<open>Reopening on an inbound message (C8)\<close>

lemma findById_messages_update [simp]:
  "findById cid (d\<lparr>messages := ms\<rparr>) = findById cid d"
  "findById cid (d\<lparr>uuid_used := n\<rparr>) = findById cid d"
  by (simp_all add: findById_def)

lemma conversationEvents_updateLastMessageAt [simp]:
  "conversationEvents (updateLastMessageAt now cid d) = conversationEvents d"
  by (simp add: updateLastMessageAt_def)

lemma findById_updateLastMessageAt:
  "findById cid (updateLastMessageAt now cid d) =
     map_option (\<lambda>c. c\<lparr>c_lastMessageAt := Some now\<rparr>) (findById cid d)"
  by (simp add: updateLastMessageAt_def findById_update_conversation)







section \<open>lastMessageAt (C9)\<close>

text \<open>
  C9 (as amended). \<open>updateLastMessageAt\<close> stores the clock reading of the call in
  \<open>lastMessageAt\<close> of the conversation, whatever is stored there, and touches no other
  conversation: no update is rejected, and the stored instant is as monotone as the
  clock readings of the successive calls are.
\<close>

theorem updateLastMessageAt_overwrites:
  assumes "findById cid d = Some c"
  shows "findById cid (updateLastMessageAt now cid d) = Some (c\<lparr>c_lastMessageAt := Some now\<rparr>) \<and>
         (\<forall>other. other \<noteq> cid \<longrightarrow> findById other (updateLastMessageAt now cid d) = findById other d)"
  using assms
  by (simp add: findById_updateLastMessageAt)
     (simp add: findById_def updateLastMessageAt_def update_conversation_def
        select_first_update_where_other)

theorem updateLastMessageAt_overwrites_witness:
  "findById ''c1'' (ex_db [(ex_conv PENDING None)\<lparr>c_lastMessageAt := Some 100\<rparr>]) =
     Some ((ex_conv PENDING None)\<lparr>c_lastMessageAt := Some 100\<rparr>) \<and>
   findById ''c1'' (updateLastMessageAt 200 ''c1'' (ex_db [(ex_conv PENDING None)\<lparr>c_lastMessageAt := Some 100\<rparr>])) =
     Some ((ex_conv PENDING None)\<lparr>c_lastMessageAt := Some 200\<rparr>)"
proof -
  have h: "findById ''c1'' (ex_db [(ex_conv PENDING None)\<lparr>c_lastMessageAt := Some 100\<rparr>]) =
     Some ((ex_conv PENDING None)\<lparr>c_lastMessageAt := Some 100\<rparr>)"
    by (simp add: findById_def select_first_def ex_db_def ex_conv_def)
  from updateLastMessageAt_overwrites[OF h, of 200] h show ?thesis by simp
qed

text \<open>
  An update whose clock reading (50) is older than the stored \<open>lastMessageAt\<close> (100),
  as between two backend instances whose clocks differ, is not rejected: it is stored.
\<close>

theorem lastMessageAt_regression_counterexample:
  "map c_lastMessageAt (conversations (ex_db [(ex_conv PENDING None)\<lparr>c_lastMessageAt := Some 100\<rparr>])) =
     [Some 100] \<and>
   map c_lastMessageAt (conversations (updateLastMessageAt 50 ''c1''
      (ex_db [(ex_conv PENDING None)\<lparr>c_lastMessageAt := Some 100\<rparr>]))) = [Some 50]"
  by (simp add: updateLastMessageAt_def update_conversation_def update_where_def ex_db_def ex_conv_def)


section \<open>Webhook signatures (C6, C10)\<close>

lemma utf8_inj:
  assumes "utf8 a @ xs = utf8 b @ ys"
  shows "a = b \<and> xs = ys"
proof -
  have "(of_char a :: nat) = of_char b \<and> xs = ys"
  proof (cases "of_char a < (128::nat)"; cases "of_char b < (128::nat)")
    assume "of_char a < (128::nat)" "of_char b < (128::nat)"
    then show ?thesis using assms by (simp add: utf8_def Let_def)
  next
    assume "of_char a < (128::nat)" "\<not> of_char b < (128::nat)"
    then show ?thesis using assms by (simp add: utf8_def Let_def)
  next
    assume "\<not> of_char a < (128::nat)" "of_char b < (128::nat)"
    then show ?thesis using assms by (simp add: utf8_def Let_def)
  next
    assume "\<not> of_char a < (128::nat)" "\<not> of_char b < (128::nat)"
    then have dm: "(of_char a :: nat) div 64 = of_char b div 64"
        "(of_char a :: nat) mod 64 = of_char b mod 64" and xy: "xs = ys"
      using assms by (simp_all add: utf8_def Let_def)
    have "(of_char a :: nat) = of_char a div 64 * 64 + of_char a mod 64" by simp
    also have "\<dots> = of_char b div 64 * 64 + of_char b mod 64" using dm by simp
    also have "\<dots> = of_char b" by simp
    finally show ?thesis using xy by simp
  qed
  then show ?thesis by simp
qed

lemma utf8_not_Nil [simp]: "utf8 c \<noteq> []"
  by (simp add: utf8_def Let_def)

lemma Buffer_from_inj: "Buffer_from a = Buffer_from b \<Longrightarrow> a = b"
proof (induction a arbitrary: b)
  case Nil
  then show ?case by (cases b) (simp_all add: Buffer_from_def)
next
  case (Cons x xs)
  show ?case
  proof (cases b)
    case Nil
    then show ?thesis using Cons.prems by (simp add: Buffer_from_def)
  next
    case (Cons y ys)
    have "x = y \<and> Buffer_from xs = Buffer_from ys"
      using Cons.prems Cons utf8_inj[of x "Buffer_from xs" y "Buffer_from ys"]
      by (simp add: Buffer_from_def)
    then show ?thesis using Cons.IH Cons by simp
  qed
qed

lemma Buffer_from_replicate_ascii:
  "of_char c < (128::nat) \<Longrightarrow> Buffer_from (replicate n c) = replicate n (of_char c)"
  by (induction n) (simp_all add: Buffer_from_def utf8_def Let_def)

text \<open>
  C10. On a channel that exists, a POST without the \<open>x-hub-signature-256\<close> header, or
  with an empty one, is not verified: the handler processes the payload and answers
  \<open>ok\<close>, whatever \<open>appSecret\<close> the channel has. The handler throws
  UnauthorizedException only for a channel with a non-empty \<open>appSecret\<close> and a request
  with a non-empty signature header. Both hold for the WhatsApp and for the Messenger
  handler.
\<close>

theorem signature_check_needs_header:
  "(select_first (\<lambda>ch. ch_id ch = channelId) (channels d) = Some channel \<and>
      (req_signature req = None \<or> req_signature req = Some []) \<longrightarrow>
      handleWhatsApp hmac stringify now channelId req d =
        (Inr ''ok'', snd (processWhatsAppWebhook now (req_body req) d)))
   \<and> (select_first (\<lambda>ch. ch_id ch = channelId) (channels d) = Some channel \<and>
      (req_signature mreq = None \<or> req_signature mreq = Some []) \<longrightarrow>
      handleMessenger hmac mstringify now channelId mreq d =
        (Inr ''ok'', snd (processMessengerWebhook now (req_body mreq) d)))
   \<and> (fst (handleWhatsApp hmac stringify now channelId req d) = Inl (UnauthorizedException msg) \<longrightarrow>
        (\<exists>ch secret signature.
            select_first (\<lambda>ch. ch_id ch = channelId) (channels d) = Some ch \<and>
            appSecret (ch_config ch) = Some secret \<and> secret \<noteq> [] \<and>
            req_signature req = Some signature \<and> signature \<noteq> []))
   \<and> (fst (handleMessenger hmac mstringify now channelId mreq d) = Inl (UnauthorizedException msg) \<longrightarrow>
        (\<exists>ch secret signature.
            select_first (\<lambda>ch. ch_id ch = channelId) (channels d) = Some ch \<and>
            appSecret (ch_config ch) = Some secret \<and> secret \<noteq> [] \<and>
            req_signature mreq = Some signature \<and> signature \<noteq> []))"
  by (auto simp: handleWhatsApp_def handleMessenger_def Let_def
      split: option.splits sum.splits if_splits)

lemma ex_unauthorized:
  "handleWhatsApp ex_hmac (\<lambda>_. []) 7 ''ch1'' (ex_request (Some ex_signature_mismatch))
      (ex_db_channel (Some ''s3cret'') []) =
     (Inl (UnauthorizedException ''Invalid signature''), ex_db_channel (Some ''s3cret'') [])"
  by (simp add: handleWhatsApp_def validateWhatsAppSignature_def startsWith_def timingSafeEqual_def
      Buffer_from_replicate_ascii ex_hmac_def ex_signature_mismatch_def ex_request_def ex_db_channel_def ex_db_def
      ex_channel_def select_first_def Let_def)

theorem signature_check_needs_header_witness:
  "select_first (\<lambda>ch. ch_id ch = ''ch1'') (channels (ex_db_channel (Some ''s3cret'') [])) =
     Some (ex_channel (Some ''s3cret'')) \<and>
   req_signature (ex_request None) = None \<and>
   handleWhatsApp ex_hmac (\<lambda>_. []) 7 ''ch1'' (ex_request None) (ex_db_channel (Some ''s3cret'') []) =
     (Inr ''ok'', snd (processWhatsAppWebhook 7 (req_body (ex_request None)) (ex_db_channel (Some ''s3cret'') []))) \<and>
   req_signature (ex_messenger_request (Some [])) = Some [] \<and>
   handleMessenger ex_hmac (\<lambda>_. []) 7 ''ch1'' (ex_messenger_request (Some [])) (ex_db_channel (Some ''s3cret'') []) =
     (Inr ''ok'', snd (processMessengerWebhook 7 (req_body (ex_messenger_request (Some []))) (ex_db_channel (Some ''s3cret'') []))) \<and>
   fst (handleWhatsApp ex_hmac (\<lambda>_. []) 7 ''ch1'' (ex_request (Some ex_signature_mismatch))
      (ex_db_channel (Some ''s3cret'') [])) = Inl (UnauthorizedException ''Invalid signature'') \<and>
   (\<exists>ch secret signature.
      select_first (\<lambda>ch. ch_id ch = ''ch1'') (channels (ex_db_channel (Some ''s3cret'') [])) = Some ch \<and>
      appSecret (ch_config ch) = Some secret \<and> secret \<noteq> [] \<and>
      req_signature (ex_request (Some ex_signature_mismatch)) = Some signature \<and>
      signature \<noteq> [])"
proof -
  have h1: "select_first (\<lambda>ch. ch_id ch = ''ch1'') (channels (ex_db_channel (Some ''s3cret'') [])) =
     Some (ex_channel (Some ''s3cret''))"
    by (simp add: select_first_def ex_db_channel_def ex_db_def ex_channel_def)
  have h2: "req_signature (ex_request None) = None" by (simp add: ex_request_def)
  have h3: "req_signature (ex_messenger_request (Some [])) = Some []" by (simp add: ex_messenger_request_def)
  have h4: "fst (handleWhatsApp ex_hmac (\<lambda>_. []) 7 ''ch1'' (ex_request (Some ex_signature_mismatch))
      (ex_db_channel (Some ''s3cret'') [])) = Inl (UnauthorizedException ''Invalid signature'')"
    by (simp add: ex_unauthorized)
  note a = signature_check_needs_header[of "''ch1''" "ex_db_channel (Some ''s3cret'') []"
      "ex_channel (Some ''s3cret'')" "ex_request None" ex_hmac "\<lambda>_. []" 7
      "ex_messenger_request (Some [])" "\<lambda>_. []" "''Invalid signature''"]
  note b = signature_check_needs_header[of "''ch1''" "ex_db_channel (Some ''s3cret'') []"
      "ex_channel (Some ''s3cret'')" "ex_request (Some ex_signature_mismatch)" ex_hmac "\<lambda>_. []" 7
      "ex_messenger_request (Some [])" "\<lambda>_. []" "''Invalid signature''"]
  show ?thesis using a b h1 h2 h3 h4 by blast
qed


text \<open>
  C6. What the WhatsApp handler does with a signature header \<open>sha256=\<close> followed by a
  digest, on a channel with a non-empty \<open>appSecret\<close>: a digest whose byte length
  differs from that of the expected hex digest makes \<open>timingSafeEqual\<close> throw, and the
  RangeError leaves the handler; the expected digest is accepted and the payload
  processed; any other digest of the same byte length is answered with
  UnauthorizedException. The two rejections leave the store untouched.
\<close>

theorem signature_verification_outcomes:
  assumes ch: "select_first (\<lambda>ch. ch_id ch = channelId) (channels d) = Some channel"
    and secret: "appSecret (ch_config channel) = Some secret" "secret \<noteq> []"
    and sig: "req_signature req = Some (''sha256='' @ provided)"
    and raw: "rawBody = (case req_rawBody req of Some raw \<Rightarrow> raw | None \<Rightarrow> stringify (req_body req))"
  shows "handleWhatsApp hmac stringify now channelId req d =
     (if length (Buffer_from (hmac secret rawBody)) \<noteq> length (Buffer_from provided)
      then (Inl (RangeError ''Input buffers must have the same byte length''), d)
      else if provided = hmac secret rawBody
      then (Inr ''ok'', snd (processWhatsAppWebhook now (req_body req) d))
      else (Inl (UnauthorizedException ''Invalid signature''), d))"
proof -
  have v: "validateWhatsAppSignature hmac rawBody (''sha256='' @ provided) secret =
     timingSafeEqual (Buffer_from (hmac secret rawBody)) (Buffer_from provided)"
    by (simp add: validateWhatsAppSignature_def startsWith_def Let_def)
  have eq: "Buffer_from (hmac secret rawBody) = Buffer_from provided \<longleftrightarrow> provided = hmac secret rawBody"
    using Buffer_from_inj by auto
  show ?thesis
    using ch secret sig raw[symmetric] v eq
    by (simp add: handleWhatsApp_def Let_def timingSafeEqual_def)
qed

theorem signature_verification_outcomes_witness:
  "select_first (\<lambda>ch. ch_id ch = ''ch1'') (channels (ex_db_channel (Some ''s3cret'') [])) =
     Some (ex_channel (Some ''s3cret'')) \<and>
   appSecret (ch_config (ex_channel (Some ''s3cret''))) = Some ''s3cret'' \<and>
   req_signature (ex_request (Some ex_signature_short)) = Some (''sha256='' @ ''abc'') \<and>
   length (Buffer_from (ex_hmac ''s3cret'' ''{}'')) = 64 \<and> length (Buffer_from ''abc'') = 3 \<and>
   handleWhatsApp ex_hmac (\<lambda>_. []) 7 ''ch1'' (ex_request (Some ex_signature_short))
      (ex_db_channel (Some ''s3cret'') []) =
     (Inl (RangeError ''Input buffers must have the same byte length''),
      ex_db_channel (Some ''s3cret'') [])"
proof -
  have h1: "select_first (\<lambda>ch. ch_id ch = ''ch1'') (channels (ex_db_channel (Some ''s3cret'') [])) =
     Some (ex_channel (Some ''s3cret''))"
    by (simp add: select_first_def ex_db_channel_def ex_db_def ex_channel_def)
  have h2: "appSecret (ch_config (ex_channel (Some ''s3cret''))) = Some ''s3cret''"
    by (simp add: ex_channel_def)
  have h3: "''s3cret'' \<noteq> []" by simp
  have h4: "req_signature (ex_request (Some ex_signature_short)) = Some (''sha256='' @ ''abc'')"
    by (simp add: ex_request_def ex_signature_short_def)
  have h5: "''{}'' = (case req_rawBody (ex_request (Some ex_signature_short)) of
                Some raw \<Rightarrow> raw | None \<Rightarrow> (\<lambda>_. []) (req_body (ex_request (Some ex_signature_short))))"
    by (simp add: ex_request_def)
  have l1: "length (Buffer_from (ex_hmac ''s3cret'' ''{}'')) = 64"
    by (simp add: ex_hmac_def Buffer_from_replicate_ascii)
  have l2: "length (Buffer_from ''abc'') = 3" by (simp add: Buffer_from_def utf8_def)
  from signature_verification_outcomes[OF h1 h2 h3 h4 h5, of ex_hmac 7] l1 l2 h1 h2 h4
  show ?thesis by simp
qed


section \<open>Repeated delivery of an inbound message\<close>

lemma select_first_None_iff: "select_first P rows = None \<longleftrightarrow> (\<forall>r\<in>set rows. \<not> P r)"
proof (cases "filter P rows")
  case Nil
  then show ?thesis by (simp add: select_first_def filter_empty_conv)
next
  case (Cons r rs)
  then have "r \<in> set (filter P rows)" by simp
  then have "r \<in> set rows" "P r" by simp_all
  then show ?thesis using Cons by (auto simp: select_first_def)
qed

lemma set_order_by_desc [simp]: "set (order_by_desc k rows) = set rows"
  by (simp add: order_by_desc_def)

lemma upsert_keeps:
  "messages (snd (upsert now org prov pid name d)) = messages d"
  "conversationEvents (snd (upsert now org prov pid name d)) = conversationEvents d"
  "conversations (snd (upsert now org prov pid name d)) = conversations d"
  by (simp_all add: upsert_def gen_random_uuid_def Let_def split: option.splits)

lemma findOrCreate_keeps:
  "messages (snd (findOrCreate now org ch ct d)) = messages d"
  "received (snd (findOrCreate now org ch ct d)) = received d"
  by (simp_all add: findOrCreate_def gen_random_uuid_def events_create_def received_def Let_def
      split: list.splits)

lemma findOrCreate_result:
  "c_status (fst (findOrCreate now org ch ct d)) \<noteq> COMPLETED \<and>
   findById (c_id (fst (findOrCreate now org ch ct d))) (snd (findOrCreate now org ch ct d)) \<noteq> None"
proof (cases "order_by_desc c_createdAt
             (filter (\<lambda>c. c_organizationId c = org \<and> c_channelId c = ch \<and> c_contactId c = ct \<and>
                          (c_status c = PENDING \<or> c_status c = ASSIGNED)) (conversations d))")
  case Nil
  then show ?thesis
    by (simp add: findOrCreate_def gen_random_uuid_def events_create_def Let_def findById_def
        select_first_None_iff)
next
  case (Cons existing rest)
  then have "existing \<in> set (order_by_desc c_createdAt
             (filter (\<lambda>c. c_organizationId c = org \<and> c_channelId c = ch \<and> c_contactId c = ct \<and>
                          (c_status c = PENDING \<or> c_status c = ASSIGNED)) (conversations d)))"
    by simp
  then have "existing \<in> set (conversations d)" "c_status existing = PENDING \<or> c_status existing = ASSIGNED"
    by auto
  then show ?thesis using Cons
    by (auto simp: findOrCreate_def findById_def select_first_None_iff)
qed

lemma create_duplicate:
  assumes "list_ex (\<lambda>m. m_providerMessageId m = Some pid) (messages d)"
  shows "create now cid dir dto agent (Some pid) d =
           (Inl (UniqueViolation ''messages_provider_message_id_unique''), d)"
  using assms by (simp add: create_def messages_insert_def)

lemma reopen_keeps:
  "messages (snd (reopen cid d)) = messages d" "received (snd (reopen cid d)) = received d"
  by (simp_all add: reopen_def update_conversation_def events_create_def received_def Let_def
      split: sum.splits option.splits)

lemma reopen_ok: "findById cid d \<noteq> None \<Longrightarrow> \<exists>c. fst (reopen cid d) = Inr c"
  by (auto simp: reopen_def findByIdOrFail_def findById_update_conversation Let_def
      split: sum.splits option.splits)

lemma create_inbound_fresh:
  assumes "\<not> list_ex (\<lambda>m. m_providerMessageId m = Some pid) (messages d)" "findById cid d \<noteq> None"
  shows "\<exists>message. fst (create now cid INBOUND dto agent (Some pid) d) = Inr message \<and>
           stored pid (snd (create now cid INBOUND dto agent (Some pid) d)) = [message] \<and>
           length (received (snd (create now cid INBOUND dto agent (Some pid) d))) = Suc (length (received d))"
proof -
  obtain message d1 where ins:
    "messages_insert now cid INBOUND agent dto (Some pid) DELIVERED d = Inr (message, d1)"
    "messages d1 = messages d @ [message]" "m_providerMessageId message = Some pid"
    "conversationEvents d1 = conversationEvents d" "findById cid d1 = findById cid d"
    using assms by (simp add: messages_insert_def gen_random_uuid_def Let_def findById_def)
  define d3 where "d3 = events_create cid MESSAGE_RECEIVED agent (MessageMeta (m_id message))
                          (updateLastMessageAt now cid d1)"
  have d3: "messages d3 = messages d @ [message]"
    "received d3 = received d @ [\<lparr>e_conversationId = cid, e_eventType = MESSAGE_RECEIVED,
        e_actorId = agent, e_metadata = MessageMeta (m_id message)\<rparr>]"
    "findById cid d3 \<noteq> None"
  proof -
    show "messages d3 = messages d @ [message]"
      using ins by (simp add: d3_def events_create_def updateLastMessageAt_def update_conversation_def)
    show "received d3 = received d @ [\<lparr>e_conversationId = cid, e_eventType = MESSAGE_RECEIVED,
        e_actorId = agent, e_metadata = MessageMeta (m_id message)\<rparr>]"
      using ins by (simp add: d3_def events_create_def received_def)
    show "findById cid d3 \<noteq> None"
      using ins assms(2) by (auto simp: d3_def findById_updateLastMessageAt)
  qed
  obtain c where c: "fst (reopen cid d3) = Inr c" using reopen_ok[OF d3(3)] by auto
  have cr: "create now cid INBOUND dto agent (Some pid) d = (Inr message, snd (reopen cid d3))"
  proof -
    obtain x2 where r: "reopen cid d3 = (Inr c, x2)" using c by (cases "reopen cid d3") simp
    show ?thesis using ins(1) r by (simp add: create_def Let_def d3_def[symmetric])
  qed
  have nostored: "stored pid d = []"
    using assms(1) by (simp add: stored_def list_ex_iff filter_empty_conv)
  show ?thesis
    using cr d3 reopen_keeps[of cid d3] ins(3) nostored
    by (simp add: stored_def)
qed


lemma handle_first:
  assumes "\<not> list_ex (\<lambda>m. m_providerMessageId m = Some (wa_id message)) (messages d)"
  shows "fst (handleWhatsAppMessage now channel message displayName d) = Inr () \<and>
         length (stored (wa_id message) (snd (handleWhatsAppMessage now channel message displayName d))) = 1 \<and>
         length (received (snd (handleWhatsAppMessage now channel message displayName d))) =
           Suc (length (received d))"
proof -
  obtain contact d1 where up: "upsert now (ch_organizationId channel) WHATSAPP (wa_from message)
      (Some displayName) d = (contact, d1)" by (cases "upsert now (ch_organizationId channel) WHATSAPP (wa_from message) (Some displayName) d")
  obtain conversation d2 where fc: "findOrCreate now (ch_organizationId channel) (ch_id channel)
      (ct_id contact) d1 = (conversation, d2)"
    by (cases "findOrCreate now (ch_organizationId channel) (ch_id channel) (ct_id contact) d1")
  have m1: "messages d1 = messages d" "received d1 = received d"
    using upsert_keeps[of now "ch_organizationId channel" WHATSAPP "wa_from message" "Some displayName" d] up
    by (simp_all add: received_def)
  have m2: "messages d2 = messages d" "received d2 = received d"
    using findOrCreate_keeps[of now "ch_organizationId channel" "ch_id channel" "ct_id contact" d1] fc m1
    by simp_all
  have c2: "c_status conversation \<noteq> COMPLETED" "findById (c_id conversation) d2 \<noteq> None"
    using findOrCreate_result[of now "ch_organizationId channel" "ch_id channel" "ct_id contact" d1] fc
    by simp_all
  have fresh: "\<not> list_ex (\<lambda>m. m_providerMessageId m = Some (wa_id message)) (messages d2)"
    using assms m2 by simp
  from create_inbound_fresh[OF fresh c2(2), of now "whatsApp_content message" None]
  obtain msg where cr: "fst (create now (c_id conversation) INBOUND (whatsApp_content message) None
        (Some (wa_id message)) d2) = Inr msg"
      "stored (wa_id message) (snd (create now (c_id conversation) INBOUND (whatsApp_content message) None
        (Some (wa_id message)) d2)) = [msg]"
      "length (received (snd (create now (c_id conversation) INBOUND (whatsApp_content message) None
        (Some (wa_id message)) d2))) = Suc (length (received d2))"
    by auto
  obtain d4 where d4: "create now (c_id conversation) INBOUND (whatsApp_content message) None
        (Some (wa_id message)) d2 = (Inr msg, d4)"
    using cr(1) by (cases "create now (c_id conversation) INBOUND (whatsApp_content message) None
        (Some (wa_id message)) d2") simp
  have res: "handleWhatsAppMessage now channel message displayName d =
      (Inr (), updateLastMessageAt now (c_id conversation) d4)"
    using up fc c2(1) d4 by (simp add: handleWhatsAppMessage_def Let_def)
  show ?thesis
    using res cr d4 m2
    by (simp add: stored_def received_def updateLastMessageAt_def update_conversation_def)
qed

lemma handle_duplicate:
  assumes "list_ex (\<lambda>m. m_providerMessageId m = Some (wa_id message)) (messages d)"
  shows "fst (handleWhatsAppMessage now channel message displayName d) =
           Inl (UniqueViolation ''messages_provider_message_id_unique'') \<and>
         messages (snd (handleWhatsAppMessage now channel message displayName d)) = messages d \<and>
         received (snd (handleWhatsAppMessage now channel message displayName d)) = received d"
proof -
  obtain contact d1 where up: "upsert now (ch_organizationId channel) WHATSAPP (wa_from message)
      (Some displayName) d = (contact, d1)" by (cases "upsert now (ch_organizationId channel) WHATSAPP (wa_from message) (Some displayName) d")
  obtain conversation d2 where fc: "findOrCreate now (ch_organizationId channel) (ch_id channel)
      (ct_id contact) d1 = (conversation, d2)"
    by (cases "findOrCreate now (ch_organizationId channel) (ch_id channel) (ct_id contact) d1")
  have m1: "messages d1 = messages d" "received d1 = received d"
    using upsert_keeps[of now "ch_organizationId channel" WHATSAPP "wa_from message" "Some displayName" d] up
    by (simp_all add: received_def)
  have m2: "messages d2 = messages d" "received d2 = received d"
    using findOrCreate_keeps[of now "ch_organizationId channel" "ch_id channel" "ct_id contact" d1] fc m1
    by simp_all
  have c2: "c_status conversation \<noteq> COMPLETED"
    using findOrCreate_result[of now "ch_organizationId channel" "ch_id channel" "ct_id contact" d1] fc
    by simp
  have dup: "list_ex (\<lambda>m. m_providerMessageId m = Some (wa_id message)) (messages d2)"
    using assms m2 by simp
  have res: "handleWhatsAppMessage now channel message displayName d =
      (Inl (UniqueViolation ''messages_provider_message_id_unique''), d2)"
    using up fc c2 create_duplicate[OF dup] by (simp add: handleWhatsAppMessage_def Let_def)
  show ?thesis using res m2 by simp
qed

lemma stored_list_ex: "stored pid d \<noteq> [] \<longleftrightarrow> list_ex (\<lambda>m. m_providerMessageId m = Some pid) (messages d)"
  by (simp add: stored_def list_ex_iff filter_empty_conv)

lemma redeliver_duplicates:
  assumes "list_ex (\<lambda>m. m_providerMessageId m = Some (wa_id message)) (messages d)"
  shows "messages (redeliver ts channel message displayName d) = messages d \<and>
         received (redeliver ts channel message displayName d) = received d"
  using assms
proof (induction ts arbitrary: d)
  case Nil
  then show ?case by simp
next
  case (Cons now ts)
  from handle_duplicate[OF Cons.prems, of now channel displayName]
  have k: "messages (snd (handleWhatsAppMessage now channel message displayName d)) = messages d"
    "received (snd (handleWhatsAppMessage now channel message displayName d)) = received d"
    by simp_all
  then have "list_ex (\<lambda>m. m_providerMessageId m = Some (wa_id message))
      (messages (snd (handleWhatsAppMessage now channel message displayName d)))"
    using Cons.prems by simp
  from Cons.IH[OF this] k show ?case by simp
qed

text \<open>
  What the unique constraint does keep. An inbound message whose provider message id
  is not yet stored is handed to \<open>handleWhatsAppMessage\<close> once or more (\<open>first\<close>, then
  \<open>later\<close>). Afterwards exactly one message row carries that provider message id and
  the audit trail has exactly one MESSAGE_RECEIVED event more than before. The first
  call succeeds; every later one ends with the uniqueness violation of the insert,
  which is thrown to the caller.
\<close>

lemma redelivery_one_row_one_event:
  assumes "\<not> list_ex (\<lambda>m. m_providerMessageId m = Some (wa_id message)) (messages d)"
  shows "length (stored (wa_id message) (redeliver (first # later) channel message displayName d)) = 1 \<and>
         length (received (redeliver (first # later) channel message displayName d)) =
           Suc (length (received d)) \<and>
         fst (handleWhatsAppMessage first channel message displayName d) = Inr () \<and>
         (\<forall>before now after. later = before @ now # after \<longrightarrow>
            fst (handleWhatsAppMessage now channel message displayName
                   (redeliver (first # before) channel message displayName d)) =
              Inl (UniqueViolation ''messages_provider_message_id_unique''))"
proof -
  define d1 where "d1 = snd (handleWhatsAppMessage first channel message displayName d)"
  from handle_first[OF assms, of first channel displayName]
  have f: "fst (handleWhatsAppMessage first channel message displayName d) = Inr ()"
    "length (stored (wa_id message) d1) = 1" "length (received d1) = Suc (length (received d))"
    by (simp_all add: d1_def)
  have dup: "list_ex (\<lambda>m. m_providerMessageId m = Some (wa_id message)) (messages d1)"
    using f(2) stored_list_ex[of "wa_id message" d1] by auto
  have keep: "\<And>ts. messages (redeliver ts channel message displayName d1) = messages d1 \<and>
      received (redeliver ts channel message displayName d1) = received d1"
    using redeliver_duplicates[OF dup] by simp
  have a: "length (stored (wa_id message) (redeliver (first # later) channel message displayName d)) = 1"
    using keep[of later] f(2) by (simp add: d1_def[symmetric] stored_def)
  have b: "length (received (redeliver (first # later) channel message displayName d)) = Suc (length (received d))"
    using keep[of later] f(3) by (simp add: d1_def[symmetric])
  have c: "\<forall>before now after. later = before @ now # after \<longrightarrow>
            fst (handleWhatsAppMessage now channel message displayName
                   (redeliver (first # before) channel message displayName d)) =
              Inl (UniqueViolation ''messages_provider_message_id_unique'')"
  proof (intro allI impI)
    fix before now after
    have "list_ex (\<lambda>m. m_providerMessageId m = Some (wa_id message))
            (messages (redeliver before channel message displayName d1))"
      using keep[of before] dup by simp
    from handle_duplicate[OF this, of now channel displayName]
    show "fst (handleWhatsAppMessage now channel message displayName
                   (redeliver (first # before) channel message displayName d)) =
              Inl (UniqueViolation ''messages_provider_message_id_unique'')"
      by (simp add: d1_def[symmetric])
  qed
  show ?thesis using a b f(1) c by blast
qed


lemma redelivery_one_row_one_event_example:
  "\<not> list_ex (\<lambda>m. m_providerMessageId m = Some (wa_id ex_wa_message))
       (messages (ex_db_channel (Some ''s3cret'') [])) \<and>
   length (stored (wa_id ex_wa_message)
     (redeliver [7, 8, 9] (ex_channel (Some ''s3cret'')) ex_wa_message ''Ann''
        (ex_db_channel (Some ''s3cret'') []))) = 1 \<and>
   length (received (redeliver [7, 8, 9] (ex_channel (Some ''s3cret'')) ex_wa_message ''Ann''
        (ex_db_channel (Some ''s3cret'') []))) =
     Suc (length (received (ex_db_channel (Some ''s3cret'') []))) \<and>
   fst (handleWhatsAppMessage 7 (ex_channel (Some ''s3cret'')) ex_wa_message ''Ann''
        (ex_db_channel (Some ''s3cret'') [])) = Inr () \<and>
   fst (handleWhatsAppMessage 8 (ex_channel (Some ''s3cret'')) ex_wa_message ''Ann''
        (redeliver [7] (ex_channel (Some ''s3cret'')) ex_wa_message ''Ann''
           (ex_db_channel (Some ''s3cret'') []))) =
     Inl (UniqueViolation ''messages_provider_message_id_unique'')"
proof -
  have h: "\<not> list_ex (\<lambda>m. m_providerMessageId m = Some (wa_id ex_wa_message))
       (messages (ex_db_channel (Some ''s3cret'') []))"
    by (simp add: ex_db_channel_def ex_db_def)
  have s: "[8, 9] = [] @ 8 # [9::nat]" by simp
  from redelivery_one_row_one_event[OF h, of 7 "[8, 9]" "ex_channel (Some ''s3cret'')" "''Ann''"] h s
  show ?thesis by blast
qed

lemmas webhook_eval =
  processWhatsAppWebhook_def processWhatsAppChange_def findWhatsAppChannel_def
  handleWhatsAppMessage_def whatsApp_content_def upsert_def findByProviderId_def truthy_def
  findOrCreate_def order_by_desc_def create_def messages_insert_def gen_random_uuid_def
  reopen_def findByIdOrFail_def findById_def setFirstResponseAt_def updateLastMessageAt_def
  update_conversation_def update_where_def select_first_def events_create_def
  ex_payload_def ex_wa_message_def ex_db_channel_def ex_db_def ex_channel_def Let_def

section \<open>A duplicate delivery is not a no-op (C5)\<close>

text \<open>
  C5. A second delivery of a payload is to be a no-op, the uniqueness violation of its
  insert being taken as success. No handler looks the provider message id up before it
  writes, and nothing catches the violation as a duplicate. The payload of the examples
  is processed at 7 and delivered again at 9:
  \<^item> the second job ends with the uniqueness violation, thrown out of
    \<open>processWhatsAppWebhook\<close>, after \<open>upsert\<close> has rewritten the contact's \<open>lastSeenAt\<close>;
  \<^item> when an agent has accepted and completed the conversation in between, the second
    job also inserts a new PENDING conversation, which holds no message, and its
    CREATED event, before the insert of the message fails;
  \<^item> the controller answers the provider as it does for a success.
\<close>

theorem duplicate_delivery_not_a_noop:
  "fst (processWhatsAppWebhook 7 ex_payload (ex_db_channel (Some ''s3cret'') [])) = Inr () \<and>
   map ct_lastSeenAt (contacts ex_delivered) = [7] \<and>
   fst (processWhatsAppWebhook 9 ex_payload ex_delivered) =
     Inl (UniqueViolation ''messages_provider_message_id_unique'') \<and>
   map ct_lastSeenAt (contacts (snd (processWhatsAppWebhook 9 ex_payload ex_delivered))) = [9] \<and>
   map (\<lambda>c. (c_id c, c_status c)) (conversations ex_completed) = [(''uu'', COMPLETED)] \<and>
   fst (processWhatsAppWebhook 9 ex_payload ex_completed) =
     Inl (UniqueViolation ''messages_provider_message_id_unique'') \<and>
   map (\<lambda>c. (c_id c, c_status c))
     (conversations (snd (processWhatsAppWebhook 9 ex_payload ex_completed))) =
     [(''uu'', COMPLETED), (''uuuu'', PENDING)] \<and>
   map (\<lambda>e. (e_conversationId e, e_eventType e))
     (conversationEvents (snd (processWhatsAppWebhook 9 ex_payload ex_completed))) =
     [(''uu'', CREATED), (''uu'', MESSAGE_RECEIVED), (''uu'', ACCEPTED), (''uu'', EV_COMPLETED),
      (''uuuu'', CREATED)] \<and>
   map (\<lambda>m. (m_conversationId m, m_providerMessageId m))
     (messages (snd (processWhatsAppWebhook 9 ex_payload ex_completed))) =
     [(''uu'', Some ''wamid.XYZ'')] \<and>
   fst (handleWhatsApp ex_hmac (\<lambda>body. ''{}'') 9 ''ch1'' (ex_request None) ex_completed) = Inr ''ok''"
  by (simp add: ex_completed_def ex_delivered_def webhook_eval handleWhatsApp_def ex_request_def
      accept_def accept_try_def complete_def acquireLock_def valkey_get_def releaseLock_def
      findByIdWithRelations_def)

section \<open>Paging through the messages of a conversation (C7)\<close>

lemma order_by_desc_filter:
  "order_by_desc k (filter (\<lambda>m. P m \<and> Q m) rows) = filter Q (order_by_desc k (filter P rows))"
proof -
  have "filter Q (rev (sort_key k (filter P rows))) = rev (filter Q (sort_key k (filter P rows)))"
    by (simp only: rev_filter)
  also have "\<dots> = rev (sort_key k (filter Q (filter P rows)))"
    by (simp only: filter_sort)
  also have "filter Q (filter P rows) = filter (\<lambda>m. P m \<and> Q m) rows"
    by simp
  finally show ?thesis by (simp only: order_by_desc_def)
qed

lemma last_take_nth:
  assumes "0 < n" "n \<le> length xs"
  shows "last (take n xs) = xs ! (n - 1)"
proof -
  have "take n xs \<noteq> []" using assms by auto
  then have "last (take n xs) = take n xs ! (length (take n xs) - 1)" by (rule last_conv_nth)
  also have "\<dots> = xs ! (n - 1)" using assms by (simp add: min_def)
  finally show ?thesis .
qed

lemma rev_Cons_last: "rev xs = y # ys \<Longrightarrow> y = last xs"
  by (metis last_rev list.sel(1) rev_rev_ident hd_rev)

lemma order_by_desc_sorted: "sorted_wrt (\<lambda>a b. k b \<le> k a) (order_by_desc k rows)"
proof -
  have "sorted_wrt (\<lambda>a b. k a \<le> k b) (sort_key k rows)"
    using sorted_sort_key[of k rows] by (simp add: sorted_map)
  then show ?thesis by (simp add: order_by_desc_def sorted_wrt_rev)
qed

lemma sorted_wrt_strict:
  "sorted_wrt (\<lambda>a b. k b \<le> k a) xs \<Longrightarrow> distinct (map k xs) \<Longrightarrow>
   sorted_wrt (\<lambda>a b. (k b :: nat) < k a) xs"
proof (induction xs)
  case Nil
  then show ?case by simp
next
  case (Cons a xs)
  have "\<forall>x\<in>set xs. k x < k a"
  proof
    fix x assume x: "x \<in> set xs"
    then have "k x \<le> k a" using Cons.prems(1) by simp
    moreover have "k a \<notin> k ` set xs" using Cons.prems(2) by simp
    then have "k x \<noteq> k a" using x by (metis imageI)
    ultimately show "k x < k a" by simp
  qed
  then show ?case using Cons by simp
qed

lemma order_by_desc_distinct:
  "distinct (map f (order_by_desc k rows)) \<longleftrightarrow> distinct (map f rows)"
  by (simp add: order_by_desc_def distinct_map)

lemma thread_strict:
  assumes "distinct (map m_createdAt (filter (\<lambda>m. m_conversationId m = cid) (messages d)))"
  shows "sorted_wrt (\<lambda>a b. m_createdAt b < m_createdAt a) (thread cid d)"
  using assms unfolding thread_def
  by (intro sorted_wrt_strict order_by_desc_sorted) (simp add: order_by_desc_distinct)

lemma older_than_cursor:
  assumes "sorted_wrt (\<lambda>a b. m_createdAt b < m_createdAt a) (A @ x # T)"
  shows "filter (\<lambda>m. m_createdAt m < m_createdAt x) (A @ x # T) = T"
proof -
  have "\<forall>a\<in>set A. m_createdAt x < m_createdAt a" "\<forall>t\<in>set T. m_createdAt t < m_createdAt x"
    using assms by (auto simp: sorted_wrt_append)
  then have "filter (\<lambda>m. m_createdAt m < m_createdAt x) A = []"
    "filter (\<lambda>m. m_createdAt m < m_createdAt x) T = T"
    by (auto simp: filter_empty_conv filter_id_conv)
  then show ?thesis by simp
qed

lemma select_first_distinct:
  "distinct (map k rows) \<Longrightarrow> x \<in> set rows \<Longrightarrow> select_first (\<lambda>r. k r = k x) rows = Some x"
  by (induction rows) (auto simp: select_first_def)

lemma findByConversation_first:
  assumes "0 < limit"
  shows "findByConversation cid None limit d =
     Inr \<lparr>data = take limit (thread cid d),
          nextCursor = (if limit < length (thread cid d)
                        then Some (m_id (thread cid d ! (limit - 1))) else None)\<rparr>"
proof (cases "limit < length (thread cid d)")
  case True
  then have ne: "take limit (thread cid d) \<noteq> []" using assms by auto
  have "last (take limit (thread cid d)) = thread cid d ! (limit - 1)"
    using True assms by (simp add: last_take_nth)
  moreover obtain y ys where r: "rev (take limit (thread cid d)) = y # ys"
    using ne by (cases "rev (take limit (thread cid d))") auto
  moreover have "y = last (take limit (thread cid d))"
    using r by (rule rev_Cons_last)
  ultimately show ?thesis
    using True
    by (simp add: findByConversation_def truthy_def thread_def[symmetric] Let_def min_def)
next
  case False
  then show ?thesis
    by (simp add: findByConversation_def truthy_def thread_def[symmetric] Let_def)
qed

lemma findByConversation_next:
  assumes lim: "0 < limit"
    and ids: "distinct (map m_id (messages d))" "[] \<notin> set (map m_id (messages d))"
    and ts: "distinct (map m_createdAt (filter (\<lambda>m. m_conversationId m = cid) (messages d)))"
    and split: "thread cid d = A @ x # T"
  shows "findByConversation cid (Some (m_id x)) limit d =
     Inr \<lparr>data = take limit T,
          nextCursor = (if limit < length T then Some (m_id (T ! (limit - 1))) else None)\<rparr>"
proof -
  have xin: "x \<in> set (messages d)"
  proof -
    have "x \<in> set (thread cid d)" using split by simp
    then show ?thesis by (simp add: thread_def)
  qed
  then have nonempty: "m_id x \<noteq> []" using ids(2) by force
  have found: "messages_findById (m_id x) d = Some x"
    using select_first_distinct[OF ids(1) xin] by (simp add: messages_findById_def)
  have older: "order_by_desc m_createdAt
                 (filter (\<lambda>m. m_conversationId m = cid \<and> m_createdAt m < m_createdAt x) (messages d)) = T"
    using older_than_cursor[of A x T] thread_strict[OF ts] split
    by (simp add: order_by_desc_filter thread_def[symmetric])
  show ?thesis
  proof (cases "limit < length T")
    case True
    then have ne: "take limit T \<noteq> []" using lim by auto
    have l: "last (take limit T) = T ! (limit - 1)"
      using True lim by (simp add: last_take_nth)
    obtain y ys where r: "rev (take limit T) = y # ys"
      using ne by (cases "rev (take limit T)") auto
    have "y = last (take limit T)"
      using r by (rule rev_Cons_last)
    then show ?thesis
      using True l r nonempty found older
      by (simp add: findByConversation_def truthy_def Let_def min_def)
  next
    case False
    then show ?thesis
      using nonempty found older
      by (simp add: findByConversation_def truthy_def Let_def)
  qed
qed


lemma fetch_pages_next:
  assumes lim: "0 < limit"
    and ids: "distinct (map m_id (messages d))" "[] \<notin> set (map m_id (messages d))"
    and ts: "distinct (map m_createdAt (filter (\<lambda>m. m_conversationId m = cid) (messages d)))"
  shows "thread cid d = A @ x # T \<Longrightarrow> length T < fuel \<Longrightarrow>
         \<exists>pages. fetch_pages fuel cid (Some (m_id x)) limit d = Some (Inr pages) \<and>
                 pages_cover limit T pages"
proof (induction fuel arbitrary: A x T)
  case 0
  then show ?case by simp
next
  case (Suc fuel)
  note page = findByConversation_next[OF lim ids ts Suc.prems(1)]
  show ?case
  proof (cases "limit < length T")
    case False
    then show ?thesis using page by (simp add: pages_cover_def)
  next
    case True
    define y where "y = T ! (limit - 1)"
    have T: "T = take (limit - 1) T @ y # drop limit T"
      using True lim id_take_nth_drop[of "limit - 1" T] by (simp add: y_def)
    have tk: "take limit T = take (limit - 1) T @ [y]"
      using True lim take_Suc_conv_app_nth[of "limit - 1" T] by (simp add: y_def)
    have split: "thread cid d = (A @ x # take (limit - 1) T) @ y # drop limit T"
      using Suc.prems(1) T by simp
    have "length (drop limit T) < fuel" using Suc.prems(2) lim True by simp
    from Suc.IH[OF split this]
    obtain pages where pages: "fetch_pages fuel cid (Some (m_id y)) limit d = Some (Inr pages)"
        "pages_cover limit (drop limit T) pages" by auto
    have "fetch_pages (Suc fuel) cid (Some (m_id x)) limit d =
            Some (Inr (\<lparr>data = take limit T, nextCursor = Some (m_id y)\<rparr> # pages))"
      using page True pages(1) by (simp add: y_def)
    moreover have "pages_cover limit T (\<lparr>data = take limit T, nextCursor = Some (m_id y)\<rparr> # pages)"
      using pages(2) True by (simp add: pages_cover_def)
    ultimately show ?thesis by blast
  qed
qed

lemma fetch_pages_first:
  assumes lim: "0 < limit"
    and ids: "distinct (map m_id (messages d))" "[] \<notin> set (map m_id (messages d))"
    and ts: "distinct (map m_createdAt (filter (\<lambda>m. m_conversationId m = cid) (messages d)))"
    and fuel: "length (thread cid d) < fuel"
  shows "\<exists>pages. fetch_pages fuel cid None limit d = Some (Inr pages) \<and>
                 pages_cover limit (thread cid d) pages"
proof -
  obtain fuel' where f: "fuel = Suc fuel'" using fuel by (cases fuel) auto
  note page = findByConversation_first[OF lim, of cid d]
  show ?thesis
  proof (cases "limit < length (thread cid d)")
    case False
    then show ?thesis using page f by (simp add: pages_cover_def)
  next
    case True
    define S where "S = thread cid d"
    define y where "y = S ! (limit - 1)"
    have S: "S = take (limit - 1) S @ y # drop limit S"
      using True lim id_take_nth_drop[of "limit - 1" S] by (simp add: y_def S_def)
    have split: "thread cid d = take (limit - 1) S @ y # drop limit S"
      using S by (simp add: S_def[symmetric])
    have "length (drop limit S) < fuel'" using fuel f lim True by (simp add: S_def)
    from fetch_pages_next[OF lim ids ts split this]
    obtain pages where pages: "fetch_pages fuel' cid (Some (m_id y)) limit d = Some (Inr pages)"
        "pages_cover limit (drop limit S) pages" by auto
    have "fetch_pages fuel cid None limit d =
            Some (Inr (\<lparr>data = take limit S, nextCursor = Some (m_id y)\<rparr> # pages))"
      using page True pages(1) f by (simp add: y_def S_def)
    moreover have "pages_cover limit S (\<lparr>data = take limit S, nextCursor = Some (m_id y)\<rparr> # pages)"
      using pages(2) True by (simp add: pages_cover_def S_def)
    ultimately show ?thesis by (auto simp: S_def)
  qed
qed


text \<open>
  C7 (as amended). Let the message ids of the store be distinct and non-empty, let the
  messages of the conversation have pairwise distinct \<open>createdAt\<close>, and let the page
  limit be at least 1. A client that follows the cursors (with fuel for more calls
  than the conversation has messages) ends with a list of pages which, one after the
  other, are the messages of the conversation in strictly descending \<open>createdAt\<close>
  order, each message exactly once. Every page but the last holds \<open>limit\<close> messages
  and has a \<open>nextCursor\<close>; the last page holds at most \<open>limit\<close> messages and its
  \<open>nextCursor\<close> is null.
\<close>

theorem paging_returns_every_message_once:
  assumes lim: "0 < limit"
    and ids: "distinct (map m_id (messages d))" "[] \<notin> set (map m_id (messages d))"
    and ts: "distinct (map m_createdAt (filter (\<lambda>m. m_conversationId m = cid) (messages d)))"
    and fuel: "length (filter (\<lambda>m. m_conversationId m = cid) (messages d)) < fuel"
  shows "\<exists>pages. fetch_pages fuel cid None limit d = Some (Inr pages) \<and> pages \<noteq> [] \<and>
      sorted_wrt (\<lambda>a b. m_createdAt b < m_createdAt a) (concat (map data pages)) \<and>
      distinct (concat (map data pages)) \<and>
      set (concat (map data pages)) = set (filter (\<lambda>m. m_conversationId m = cid) (messages d)) \<and>
      list_all (\<lambda>p. nextCursor p \<noteq> None \<and> length (data p) = limit) (butlast pages) \<and>
      nextCursor (last pages) = None \<and> length (data (last pages)) \<le> limit"
proof -
  have len: "length (thread cid d) < fuel"
    using fuel by (simp add: thread_def order_by_desc_def)
  from fetch_pages_first[OF lim ids ts len]
  obtain pages where pages: "fetch_pages fuel cid None limit d = Some (Inr pages)"
      "pages_cover limit (thread cid d) pages" by auto
  have cc: "concat (map data pages) = thread cid d" using pages(2) by (simp add: pages_cover_def)
  have "distinct (messages d)" using ids(1) by (simp add: distinct_map)
  then have dist: "distinct (thread cid d)" by (simp add: thread_def order_by_desc_def)
  have st: "set (thread cid d) = set (filter (\<lambda>m. m_conversationId m = cid) (messages d))"
    by (simp add: thread_def)
  have cover: "pages \<noteq> []"
    "list_all (\<lambda>p. nextCursor p \<noteq> None \<and> length (data p) = limit) (butlast pages)"
    "nextCursor (last pages) = None" "length (data (last pages)) \<le> limit"
    using pages(2) by (simp_all add: pages_cover_def)
  have "sorted_wrt (\<lambda>a b. m_createdAt b < m_createdAt a) (concat (map data pages))"
    "distinct (concat (map data pages))"
    "set (concat (map data pages)) = set (filter (\<lambda>m. m_conversationId m = cid) (messages d))"
    using dist st thread_strict[OF ts] by (simp_all only: cc)
  then show ?thesis using pages(1) cover by blast
qed

lemma ex_paging_hyps:
  "distinct (map m_id (messages (ex_db_msgs [] [ex_message ''m1'' None SENT 1, ex_message ''m2'' None SENT 2, ex_message ''m3'' None SENT 3])))"
  "[] \<notin> set (map m_id (messages (ex_db_msgs [] [ex_message ''m1'' None SENT 1, ex_message ''m2'' None SENT 2, ex_message ''m3'' None SENT 3])))"
  "distinct (map m_createdAt (filter (\<lambda>m. m_conversationId m = ''c1'')
      (messages (ex_db_msgs [] [ex_message ''m1'' None SENT 1, ex_message ''m2'' None SENT 2, ex_message ''m3'' None SENT 3]))))"
  "length (filter (\<lambda>m. m_conversationId m = ''c1'')
      (messages (ex_db_msgs [] [ex_message ''m1'' None SENT 1, ex_message ''m2'' None SENT 2, ex_message ''m3'' None SENT 3]))) < 4"
  by (simp_all add: ex_db_msgs_def ex_db_def ex_message_def)

theorem paging_returns_every_message_once_witness:
  "(0::nat) < 2 \<and>
   distinct (map m_id (messages (ex_db_msgs [] [ex_message ''m1'' None SENT 1, ex_message ''m2'' None SENT 2, ex_message ''m3'' None SENT 3]))) \<and>
   [] \<notin> set (map m_id (messages (ex_db_msgs [] [ex_message ''m1'' None SENT 1, ex_message ''m2'' None SENT 2, ex_message ''m3'' None SENT 3]))) \<and>
   distinct (map m_createdAt (filter (\<lambda>m. m_conversationId m = ''c1'')
      (messages (ex_db_msgs [] [ex_message ''m1'' None SENT 1, ex_message ''m2'' None SENT 2, ex_message ''m3'' None SENT 3])))) \<and>
   (\<exists>pages. fetch_pages 4 ''c1'' None 2
        (ex_db_msgs [] [ex_message ''m1'' None SENT 1, ex_message ''m2'' None SENT 2, ex_message ''m3'' None SENT 3]) =
          Some (Inr pages) \<and> pages \<noteq> [] \<and>
      sorted_wrt (\<lambda>a b. m_createdAt b < m_createdAt a) (concat (map data pages)) \<and>
      distinct (concat (map data pages)) \<and>
      set (concat (map data pages)) = set (filter (\<lambda>m. m_conversationId m = ''c1'')
        (messages (ex_db_msgs [] [ex_message ''m1'' None SENT 1, ex_message ''m2'' None SENT 2, ex_message ''m3'' None SENT 3]))) \<and>
      list_all (\<lambda>p. nextCursor p \<noteq> None \<and> length (data p) = 2) (butlast pages) \<and>
      nextCursor (last pages) = None \<and> length (data (last pages)) \<le> 2)"
proof -
  have l: "(0::nat) < 2" by simp
  from paging_returns_every_message_once[OF l ex_paging_hyps] l ex_paging_hyps(1,2,3)
  show ?thesis by blast
qed

lemmas paging_eval =
  findByConversation_def messages_findById_def select_first_def order_by_desc_def truthy_def
  ex_db_msgs_def ex_db_def ex_message_def Let_def

text \<open>
  Two messages of one conversation with the same \<open>createdAt\<close>, paged with limit 1: the
  second call asks for messages strictly older than the cursor and gets none, so one
  of the two messages is never returned, whichever the store lists first. And with
  limit 0 the listing of a conversation that has a message throws.
\<close>

theorem paging_ties_counterexample:
  "fetch_pages 5 ''c1'' None 1 (ex_db_msgs [] [ex_message ''m1'' None SENT 5, ex_message ''m2'' None SENT 5]) =
     Some (Inr [\<lparr>data = [ex_message ''m2'' None SENT 5], nextCursor = Some ''m2''\<rparr>,
                \<lparr>data = [], nextCursor = None\<rparr>]) \<and>
   fetch_pages 5 ''c1'' None 1 (ex_db_msgs [] [ex_message ''m2'' None SENT 5, ex_message ''m1'' None SENT 5]) =
     Some (Inr [\<lparr>data = [ex_message ''m1'' None SENT 5], nextCursor = Some ''m1''\<rparr>,
                \<lparr>data = [], nextCursor = None\<rparr>]) \<and>
   findByConversation ''c1'' None 0 (ex_db_msgs [] [ex_message ''m1'' None SENT 5]) =
     Inl (TypeError ''Cannot read properties of undefined (reading 'id')'')"
  by (simp add: eval_nat_numeral paging_eval)



end

